theory Spec2Isabelle
  imports Complex_Main "HOL-Library.Char_ord" "HOL-Library.List_Lexorder" "HOL-Library.Log_Nat"
begin

section \<open>The tree-layout engine of \<open>src/App.tsx\<close>\<close>

text \<open>
  The program turns a list of slash-separated paths into a graph of \<open>FileData\<close> objects
  (function \<open>createFileDatas\<close>), ranks siblings, measures one width per column, places every
  object at an \<open>(x, y)\<close> position (the nested function \<open>setFilePos\<close>) and finally draws one
  connector per directory (component \<open>File\<close>).

  Modelling decisions.
  \<^item> Array indices, \<open>level\<close> and \<open>seq\<close> are natural numbers. Positions and widths are real
    numbers. JavaScript computes with binary64 numbers: a sum is the exact sum rounded to the
    nearest number of 53 significant bits (function \<open>fl\<close> below). Ranks, levels and rows are
    small integers, on which this rounding does nothing; the comparators, \<open>place\<close> and the run
    \<open>createFileDatas\<close> therefore add exactly, which changes no order, no row and no sign.
    Sums of measured widths do get rounded. Where the last bit matters, every addition is
    rounded as the machine does it: the width cells and the offset table of lines 124 to 145
    are given a second time in that arithmetic (\<open>levelWidths64\<close> to \<open>levelOffset64\<close>), and the
    connector of lines 210 to 229 is given in that arithmetic only.
  \<^item> Strings are \<open>string\<close>; \<open>a.base < b.base\<close> is the lexicographic order on lists of
    characters, each character standing for one code unit.
  \<^item> The program keeps exactly one object per key of \<open>filesMap\<close>: an object is created only
    when its key is absent and is stored under that key at once. A reference to an object is
    therefore modelled by its key, and the objects live in an explicit store \<open>heap\<close> from
    references to field values. The \<open>Map\<close> itself is the list of its keys in insertion order.
  \<^item> A JavaScript array that may have holes is a list of options; reading a hole or reading
    past the end gives \<open>None\<close> (\<open>undefined\<close>).
  \<^item> Arithmetic on \<open>undefined\<close> would poison the result with \<open>NaN\<close>; the model reports it as
    the fault \<open>UndefinedRead\<close> instead. The recursion of \<open>setFilePos\<close> follows the object
    graph; it is given fuel and reports \<open>OutOfFuel\<close> when it is used up.
\<close>

subsection \<open>Data\<close>

datatype FileType = Unknown | Dir | Js

record FileData =
  parent :: "string option"
  children :: "string list"
  ftype :: FileType
  path :: string
  base :: string
  level :: nat
  seq :: nat
  x_pos :: real
  y_pos :: real

record filesMap =
  keys :: "string list"
  heap :: "string \<Rightarrow> FileData"

datatype fault = OutOfFuel | UndefinedRead

subsection \<open>Library functions of the host language\<close>

text \<open>\<open>s.split(c)\<close>: never empty; \<open>''''.split(c)\<close> is \<open>['''']\<close>.\<close>

fun str_split :: "char \<Rightarrow> string \<Rightarrow> string list" where
  "str_split c [] = [[]]"
| "str_split c (d # ds) =
     (if d = c then [] # str_split c ds
      else (d # hd (str_split c ds)) # tl (str_split c ds))"

text \<open>\<open>xs.join(c)\<close>.\<close>

fun str_join :: "char \<Rightarrow> string list \<Rightarrow> string" where
  "str_join c [] = []"
| "str_join c [s] = s"
| "str_join c (s # t # ts) = s @ c # str_join c (t # ts)"

text \<open>
  \<open>xs.toSorted(cmp)\<close>: a stable sort. Insertion from the right keeps equal elements in their
  original order; the element \<open>a\<close> goes before the first \<open>b\<close> with \<open>cmp(a, b) <= 0\<close>.
\<close>

fun insort_cmp :: "('a \<Rightarrow> 'a \<Rightarrow> real) \<Rightarrow> 'a \<Rightarrow> 'a list \<Rightarrow> 'a list" where
  "insort_cmp cmp a [] = [a]"
| "insort_cmp cmp a (b # bs) =
     (if cmp a b \<le> 0 then a # b # bs else b # insort_cmp cmp a bs)"

definition toSorted :: "('a \<Rightarrow> 'a \<Rightarrow> real) \<Rightarrow> 'a list \<Rightarrow> 'a list" where
  "toSorted cmp xs = foldr (insort_cmp cmp) xs []"

text \<open>Reading \<open>a[i]\<close>, and writing \<open>a[i] = v\<close>, which extends the array with holes.\<close>

definition arr_get :: "'a option list \<Rightarrow> nat \<Rightarrow> 'a option" where
  "arr_get a i = (if i < length a then a ! i else None)"

definition arr_set :: "'a option list \<Rightarrow> nat \<Rightarrow> 'a \<Rightarrow> 'a option list" where
  "arr_set a i v =
     (if i < length a then a[i := Some v]
      else a @ replicate (i - length a) None @ [Some v])"

text \<open>\<open>!v\<close> and \<open>v || 0\<close> for a number or \<open>undefined\<close>.\<close>

definition falsy :: "real option \<Rightarrow> bool" where
  "falsy v = (case v of None \<Rightarrow> True | Some r \<Rightarrow> r = 0)"

definition or_zero :: "real option \<Rightarrow> real" where
  "or_zero v = (case v of None \<Rightarrow> 0 | Some r \<Rightarrow> r)"

text \<open>An array all of whose cells are read by arithmetic: a hole is a fault.\<close>

fun defined_cells :: "real option list \<Rightarrow> fault + real list" where
  "defined_cells [] = Inr []"
| "defined_cells (None # a) = Inl UndefinedRead"
| "defined_cells (Some v # a) =
     (case defined_cells a of Inl e \<Rightarrow> Inl e | Inr vs \<Rightarrow> Inr (v # vs))"

subsection \<open>Building the graph (lines 56 to 96)\<close>

definition emptyMap :: filesMap where
  "emptyMap =
     \<lparr>keys = [],
      heap = (\<lambda>_. \<lparr>parent = None, children = [], ftype = Unknown, path = [], base = [],
                   level = 0, seq = 0, x_pos = 0, y_pos = 0\<rparr>)\<rparr>"

text \<open>The callback of \<open>paths.map\<close>: look the prefix up, or create its object.\<close>

definition nodeFor :: "string list \<Rightarrow> nat \<Rightarrow> filesMap \<Rightarrow> filesMap \<times> string" where
  "nodeFor paths index M =
     (let n = length paths;
          p = str_join CHR ''/'' (take (index + 1) paths);
          t = (if index = n - 1 then Js else Dir)
      in if p \<in> set (keys M) then (M, p)
         else (M\<lparr>keys := keys M @ [p],
                 heap := (heap M)(p :=
                   \<lparr>parent = None, children = [], ftype = t, path = p,
                    base = paths ! index, level = index, seq = 0, x_pos = 0, y_pos = 0\<rparr>)\<rparr>,
               p))"

definition mapFiles :: "string list \<Rightarrow> filesMap \<Rightarrow> filesMap \<times> string list" where
  "mapFiles paths M =
     fold (\<lambda>index (M', files). case nodeFor paths index M' of (M'', d) \<Rightarrow> (M'', files @ [d]))
       [0..<length paths] (M, [])"

text \<open>One round of the loop that sets \<open>parent\<close> and \<open>children\<close>.\<close>

definition link :: "string list \<Rightarrow> nat \<Rightarrow> filesMap \<Rightarrow> filesMap" where
  "link files i M =
     (let c = files ! i;
          p = files ! (i - 1);
          M1 = M\<lparr>heap := (heap M)(c := (heap M c)\<lparr>parent := Some p\<rparr>)\<rparr>
      in if c \<in> set (children (heap M1 p)) then M1
         else M1\<lparr>heap := (heap M1)(p := (heap M1 p)\<lparr>children := children (heap M1 p) @ [c]\<rparr>)\<rparr>)"

definition addPath :: "string \<Rightarrow> filesMap \<Rightarrow> filesMap" where
  "addPath filePath M =
     (let paths = str_split CHR ''/'' filePath
      in case mapFiles paths M of (M1, files) \<Rightarrow> fold (link files) [1..<length paths] M1)"

definition buildMap :: "string list \<Rightarrow> filesMap" where
  "buildMap filePaths = fold addPath filePaths emptyMap"

subsection \<open>Ranking (lines 98 to 122)\<close>

definition cmpChildren :: "FileData \<Rightarrow> FileData \<Rightarrow> real" where
  "cmpChildren a b =
     (if ftype a \<noteq> ftype b \<and> ftype a = Dir then - 1
      else if ftype a \<noteq> ftype b \<and> ftype b = Dir then 1
      else if base a < base b then - 1 else 1)"

definition sortedChildren :: "filesMap \<Rightarrow> string \<Rightarrow> string list" where
  "sortedChildren M k =
     toSorted (\<lambda>a b. cmpChildren (heap M a) (heap M b)) (children (heap M k))"

definition setSeq :: "string \<Rightarrow> nat \<Rightarrow> filesMap \<Rightarrow> filesMap" where
  "setSeq k v M = M\<lparr>heap := (heap M)(k := (heap M k)\<lparr>seq := v\<rparr>)\<rparr>"

definition seqStep :: "string \<Rightarrow> filesMap \<times> nat \<Rightarrow> filesMap \<times> nat" where
  "seqStep k st =
     (case st of (M, rootSeq) \<Rightarrow>
        let (M1, r1) = (if level (heap M k) = 0 then (setSeq k rootSeq M, rootSeq + 1)
                        else (M, rootSeq));
            kids = sortedChildren M1 k
        in (fold (\<lambda>(child, index). setSeq child index) (zip kids [0..<length kids]) M1, r1))"

definition assignSeq :: "filesMap \<Rightarrow> filesMap" where
  "assignSeq M = fst (fold seqStep (keys M) (M, 0))"

subsection \<open>Column widths and offsets (lines 124 to 145)\<close>

definition cmpLevel :: "FileData \<Rightarrow> FileData \<Rightarrow> real" where
  "cmpLevel a b =
     (if level a \<noteq> level b then real (level a) - real (level b)
      else real (length (children b)) - real (length (children a)))"

definition widthStep :: "(string \<Rightarrow> real) \<Rightarrow> FileData \<Rightarrow> real option list \<Rightarrow> real option list" where
  "widthStep measureTextWidth file lo =
     (if falsy (arr_get lo (level file)) \<or> length (children file) > 0
      then arr_set lo (level file)
             (max (or_zero (arr_get lo (level file))) (measureTextWidth (base file) + 40))
      else lo)"

definition levelWidths :: "(string \<Rightarrow> real) \<Rightarrow> filesMap \<Rightarrow> real option list" where
  "levelWidths measureTextWidth M =
     fold (widthStep measureTextWidth)
       (toSorted cmpLevel (map (heap M) (keys M))) []"

definition prefixSums :: "real list \<Rightarrow> real list" where
  "prefixSums lo = fold (\<lambda>i a. a[i := a ! (i - 1) + a ! i]) [1..<length lo] lo"

definition addGaps :: "real list \<Rightarrow> real list" where
  "addGaps lo = fold (\<lambda>i a. a[i := a ! i + (real i + 1) * 60]) [0..<length lo] lo"

definition offsetsOf :: "real option list \<Rightarrow> fault + real list" where
  "offsetsOf widths =
     (case defined_cells (butlast widths) of
        Inl e \<Rightarrow> Inl e
      | Inr lo \<Rightarrow> Inr (0 # addGaps (prefixSums lo)))"

subsection \<open>Placement (lines 147 to 166)\<close>

definition place :: "real list \<Rightarrow> string \<Rightarrow> real \<Rightarrow> filesMap \<Rightarrow> filesMap" where
  "place levelOffset k baseY M =
     M\<lparr>heap := (heap M)(k := (heap M k)
        \<lparr>x_pos := levelOffset ! level (heap M k),
         y_pos := baseY + min 1 (real (seq (heap M k))) * (32 + 16)\<rparr>)\<rparr>"

fun setFilePos :: "nat \<Rightarrow> real list \<Rightarrow> string \<Rightarrow> real \<Rightarrow> filesMap \<Rightarrow> fault + (string \<times> filesMap)"
  and eachChild :: "nat \<Rightarrow> real list \<Rightarrow> string list \<Rightarrow> string \<times> filesMap \<Rightarrow> fault + (string \<times> filesMap)"
where
  "setFilePos 0 levelOffset fileData baseY M = Inl OutOfFuel"
| "setFilePos (Suc fuel) levelOffset fileData baseY M =
     (if level (heap M fileData) < length levelOffset
      then let M1 = place levelOffset fileData baseY M
           in eachChild fuel levelOffset
                (toSorted (\<lambda>a b. real (seq (heap M1 a)) - real (seq (heap M1 b)))
                   (children (heap M1 fileData)))
                (fileData, M1)
      else Inl UndefinedRead)"
| "eachChild fuel levelOffset [] st = Inr st"
| "eachChild fuel levelOffset (child # rest) st =
     (case st of (lastChild, M) \<Rightarrow>
        (case setFilePos fuel levelOffset child (y_pos (heap M lastChild)) M of
           Inl e \<Rightarrow> Inl e
         | Inr st' \<Rightarrow> eachChild fuel levelOffset rest st'))"

definition rootFiles :: "filesMap \<Rightarrow> string list" where
  "rootFiles M =
     toSorted (\<lambda>a b. real (seq (heap M a)) - real (seq (heap M b)))
       (filter (\<lambda>k. level (heap M k) = 0) (keys M))"

fun eachRoot :: "nat \<Rightarrow> real list \<Rightarrow> string list \<Rightarrow> string option \<times> filesMap \<Rightarrow> fault + (string option \<times> filesMap)" where
  "eachRoot fuel levelOffset [] st = Inr st"
| "eachRoot fuel levelOffset (rootFile # rest) st =
     (case st of (lastChild, M) \<Rightarrow>
        (case setFilePos fuel levelOffset rootFile
                (case lastChild of None \<Rightarrow> 0 | Some l \<Rightarrow> y_pos (heap M l)) M of
           Inl e \<Rightarrow> Inl e
         | Inr (nextLastChild, M') \<Rightarrow> eachRoot fuel levelOffset rest (Some nextLastChild, M')))"

subsection \<open>The whole of \<open>createFileDatas\<close>\<close>

definition createFileDatas :: "(string \<Rightarrow> real) \<Rightarrow> string list \<Rightarrow> fault + (filesMap \<times> real list)" where
  "createFileDatas measureTextWidth filePaths =
     (let M = assignSeq (buildMap filePaths)
      in case offsetsOf (levelWidths measureTextWidth M) of
           Inl e \<Rightarrow> Inl e
         | Inr levelOffset \<Rightarrow>
             (case eachRoot (length levelOffset) levelOffset (rootFiles M) (None, M) of
                Inl e \<Rightarrow> Inl e
              | Inr (l, M') \<Rightarrow> Inr (M', levelOffset)))"

subsection \<open>Binary64 arithmetic\<close>

text \<open>
  \<open>fl x\<close> is \<open>x\<close> rounded to the nearest binary64 number, ties to the even significand. The
  spacing of the binary64 numbers around \<open>x\<close> is \<open>2 powi ulpExp x\<close>: for
  \<open>2 ^ e \<le> \<bar>x\<bar> < 2 ^ (e + 1)\<close> it is \<open>2 powi (e - 52)\<close>, and never less than \<open>2 powi (- 1074)\<close>
  (gradual underflow). \<open>bitlen n\<close> is the number of binary digits of \<open>n\<close>. Overflow to
  \<open>Infinity\<close> (sums of \<open>2 ^ 1024\<close> and more) is not modelled.
\<close>

definition emin :: nat where
  "emin = 1074"

definition ulpExp :: "real \<Rightarrow> int" where
  "ulpExp x = max (bitlen \<lfloor>\<bar>x\<bar> * 2 ^ emin\<rfloor> - int emin - 53) (- int emin)"

text \<open>The nearest integer, the even one of two that are equally near.\<close>

definition rne :: "real \<Rightarrow> int" where
  "rne y =
     (let n = \<lfloor>y\<rfloor>; r = y - of_int n
      in if r < 1 / 2 then n else if 1 / 2 < r then n + 1 else if even n then n else n + 1)"

definition fl :: "real \<Rightarrow> real" where
  "fl x = of_int (rne (x / 2 powi ulpExp x)) * 2 powi ulpExp x"

text \<open>The operators \<open>+\<close>, \<open>-\<close> and \<open>/\<close> of the program.\<close>

definition fadd :: "real \<Rightarrow> real \<Rightarrow> real" where
  "fadd a b = fl (a + b)"



subsection \<open>Column widths and offsets in binary64 (lines 124 to 145)\<close>

text \<open>
  The same statements as \<open>widthStep\<close>, \<open>levelWidths\<close>, \<open>prefixSums\<close>, \<open>addGaps\<close> and \<open>offsetsOf\<close>,
  with each \<open>+\<close> of the program rounded. The product \<open>(i + 1) * 60\<close> is a small integer and is
  exact. \<open>levelOffset64\<close> is the array \<open>levelOffset\<close> that \<open>createFileDatas\<close> returns.
\<close>

definition widthStep64 :: "(string \<Rightarrow> real) \<Rightarrow> FileData \<Rightarrow> real option list \<Rightarrow> real option list" where
  "widthStep64 measureTextWidth file lo =
     (if falsy (arr_get lo (level file)) \<or> length (children file) > 0
      then arr_set lo (level file)
             (max (or_zero (arr_get lo (level file))) (fadd (measureTextWidth (base file)) 40))
      else lo)"

definition levelWidths64 :: "(string \<Rightarrow> real) \<Rightarrow> filesMap \<Rightarrow> real option list" where
  "levelWidths64 measureTextWidth M =
     fold (widthStep64 measureTextWidth)
       (toSorted cmpLevel (map (heap M) (keys M))) []"

definition prefixSums64 :: "real list \<Rightarrow> real list" where
  "prefixSums64 lo = fold (\<lambda>i a. a[i := fadd (a ! (i - 1)) (a ! i)]) [1..<length lo] lo"

definition addGaps64 :: "real list \<Rightarrow> real list" where
  "addGaps64 lo = fold (\<lambda>i a. a[i := fadd (a ! i) ((real i + 1) * 60)]) [0..<length lo] lo"

definition offsetsOf64 :: "real option list \<Rightarrow> fault + real list" where
  "offsetsOf64 widths =
     (case defined_cells (butlast widths) of
        Inl e \<Rightarrow> Inl e
      | Inr lo \<Rightarrow> Inr (0 # addGaps64 (prefixSums64 lo)))"

definition levelOffset64 :: "(string \<Rightarrow> real) \<Rightarrow> string list \<Rightarrow> fault + real list" where
  "levelOffset64 measureTextWidth filePaths =
     offsetsOf64 (levelWidths64 measureTextWidth (assignSeq (buildMap filePaths)))"

subsection \<open>The connector of a directory (component \<open>File\<close>, lines 210 to 229)\<close>



section \<open>Vocabulary of the specification and of the proofs\<close>

definition segs :: "string \<Rightarrow> string list" where
  "segs p = str_split CHR ''/'' p"

definition prefixAt :: "string list \<Rightarrow> nat \<Rightarrow> string" where
  "prefixAt paths index = str_join CHR ''/'' (take (index + 1) paths)"

definition prefixes :: "string \<Rightarrow> string list" where
  "prefixes filePath = map (prefixAt (segs filePath)) [0..<length (segs filePath)]"

definition dirname :: "string \<Rightarrow> string" where
  "dirname p = str_join CHR ''/'' (butlast (segs p))"

definition depth :: "string \<Rightarrow> nat" where
  "depth p = length (segs p) - 1"

definition freshNode :: "string list \<Rightarrow> nat \<Rightarrow> FileData" where
  "freshNode paths index =
     \<lparr>parent = None, children = [],
      ftype = (if index = length paths - 1 then Js else Dir),
      path = prefixAt paths index, base = paths ! index, level = index,
      seq = 0, x_pos = 0, y_pos = 0\<rparr>"

definition ensure :: "string list \<Rightarrow> nat \<Rightarrow> filesMap \<Rightarrow> filesMap" where
  "ensure paths index M = fst (nodeFor paths index M)"

definition nodeOK :: "filesMap \<Rightarrow> string \<Rightarrow> bool" where
  "nodeOK M k \<longleftrightarrow>
     path (heap M k) = k \<and> level (heap M k) = depth k \<and> base (heap M k) = last (segs k) \<and>
     (ftype (heap M k) = Dir \<or> ftype (heap M k) = Js) \<and>
     distinct (children (heap M k)) \<and>
     (\<forall>c\<in>set (children (heap M k)). c \<in> set (keys M) \<and> 0 < depth c \<and> dirname c = k)"

definition nodesOK :: "filesMap \<Rightarrow> bool" where
  "nodesOK M \<longleftrightarrow> distinct (keys M) \<and> (\<forall>k\<in>set (keys M). nodeOK M k)"

definition linkedOn :: "string set \<Rightarrow> filesMap \<Rightarrow> bool" where
  "linkedOn K M \<longleftrightarrow>
     (\<forall>k\<in>K. 0 < depth k \<longrightarrow>
        dirname k \<in> set (keys M) \<and> k \<in> set (children (heap M (dirname k))))"

definition wfMap :: "filesMap \<Rightarrow> bool" where
  "wfMap M \<longleftrightarrow> nodesOK M \<and> linkedOn (set (keys M)) M"

definition shape ::
  "FileData \<Rightarrow> string list \<times> FileType \<times> string \<times> string \<times> nat \<times> string option" where
  "shape n = (children n, ftype n, path n, base n, level n, parent n)"

definition sameShape :: "filesMap \<Rightarrow> filesMap \<Rightarrow> bool" where
  "sameShape M M' \<longleftrightarrow> keys M' = keys M \<and> (\<forall>k. shape (heap M' k) = shape (heap M k))"

definition rootsOf :: "filesMap \<Rightarrow> string list" where
  "rootsOf M = filter (\<lambda>k. level (heap M k) = 0) (keys M)"

definition seqOf :: "filesMap \<Rightarrow> string \<Rightarrow> nat" where
  "seqOf M k = seq (heap M k)"

definition seqOK :: "filesMap \<Rightarrow> bool" where
  "seqOK M \<longleftrightarrow>
     (\<forall>k\<in>set (keys M). map (seqOf M) (sortedChildren M k) = [0..<length (children (heap M k))]) \<and>
     map (seqOf M) (rootsOf M) = [0..<length (rootsOf M)]"

definition firstSeen :: "'a list \<Rightarrow> 'a list" where
  "firstSeen xs = rev (remdups (rev xs))"

definition childRel :: "filesMap \<Rightarrow> (string \<times> string) set" where
  "childRel M = {(a, b). b \<in> set (children (heap M a))}"

definition subtree :: "filesMap \<Rightarrow> string \<Rightarrow> string set" where
  "subtree M k = (childRel M)\<^sup>* `` {k}"

definition yOf :: "filesMap \<Rightarrow> string \<Rightarrow> real" where
  "yOf M k = y_pos (heap M k)"

definition xOf :: "filesMap \<Rightarrow> string \<Rightarrow> real" where
  "xOf M k = x_pos (heap M k)"

definition rowOffset :: "filesMap \<Rightarrow> string \<Rightarrow> real" where
  "rowOffset M k = min 1 (real (seqOf M k)) * (32 + 16)"

definition samePlan :: "filesMap \<Rightarrow> filesMap \<Rightarrow> bool" where
  "samePlan M M' \<longleftrightarrow> sameShape M M' \<and> (\<forall>k. seqOf M' k = seqOf M k)"

definition kidsOrder :: "filesMap \<Rightarrow> string \<Rightarrow> string list" where
  "kidsOrder M k =
     toSorted (\<lambda>a b. real (seqOf M a) - real (seqOf M b)) (children (heap M k))"

definition above :: "filesMap \<Rightarrow> filesMap \<Rightarrow> string \<Rightarrow> string \<Rightarrow> bool" where
  "above M0 M a b \<longleftrightarrow> (\<forall>u\<in>subtree M0 a. \<forall>v\<in>subtree M0 b. yOf M u < yOf M v)"

definition nodeLaid :: "filesMap \<Rightarrow> real list \<Rightarrow> filesMap \<Rightarrow> string \<Rightarrow> bool" where
  "nodeLaid M0 lo M k \<longleftrightarrow>
     xOf M k = lo ! level (heap M0 k) \<and>
     (\<forall>c\<in>set (children (heap M0 k)).
        yOf M k \<le> yOf M c \<and> (seqOf M0 c = 0 \<longrightarrow> yOf M c = yOf M k)) \<and>
     (\<forall>a\<in>set (children (heap M0 k)). \<forall>b\<in>set (children (heap M0 k)).
        seqOf M0 a < seqOf M0 b \<longrightarrow> above M0 M a b)"

definition treeLaid ::
  "filesMap \<Rightarrow> real list \<Rightarrow> string \<Rightarrow> real \<Rightarrow> filesMap \<Rightarrow> string \<Rightarrow> filesMap \<Rightarrow> bool" where
  "treeLaid M0 lo k baseY M l M' \<longleftrightarrow>
     samePlan M0 M' \<and>
     (\<forall>m. m \<notin> subtree M0 k \<longrightarrow> heap M' m = heap M m) \<and>
     yOf M' k = baseY + rowOffset M0 k \<and>
     l \<in> subtree M0 k \<and>
     (\<forall>m\<in>subtree M0 k. yOf M' k \<le> yOf M' m \<and> yOf M' m \<le> yOf M' l \<and> nodeLaid M0 lo M' m)"

definition rowLaid ::
  "filesMap \<Rightarrow> real list \<Rightarrow> string list \<Rightarrow> real \<Rightarrow> string \<Rightarrow> filesMap \<Rightarrow> string \<Rightarrow> filesMap \<Rightarrow> bool" where
  "rowLaid M0 lo cs y0 l M l' M' \<longleftrightarrow>
     samePlan M0 M' \<and>
     (\<forall>m. m \<notin> (\<Union>c\<in>set cs. subtree M0 c) \<longrightarrow> heap M' m = heap M m) \<and>
     (cs = [] \<longrightarrow> l' = l) \<and>
     (cs \<noteq> [] \<longrightarrow> l' \<in> subtree M0 (last cs) \<and> yOf M' (hd cs) = y0 + rowOffset M0 (hd cs)) \<and>
     (y0 \<le> yOf M l \<longrightarrow> y0 \<le> yOf M' l') \<and>
     (\<forall>c\<in>set cs. \<forall>m\<in>subtree M0 c.
        y0 + rowOffset M0 (hd cs) \<le> yOf M' m \<and> yOf M' m \<le> yOf M' l' \<and> nodeLaid M0 lo M' m) \<and>
     sorted_wrt (above M0 M') cs"

definition placesAt :: "filesMap \<Rightarrow> real list \<Rightarrow> nat \<Rightarrow> bool" where
  "placesAt M0 lo fuel \<longleftrightarrow>
     (\<forall>c baseY M. samePlan M0 M \<longrightarrow> c \<in> set (keys M0) \<longrightarrow>
        length lo \<le> fuel + level (heap M0 c) \<longrightarrow>
        (\<exists>l M'. setFilePos fuel lo c baseY M = Inr (l, M') \<and> treeLaid M0 lo c baseY M l M'))"

definition layoutCtx :: "filesMap \<Rightarrow> real list \<Rightarrow> bool" where
  "layoutCtx M0 lo \<longleftrightarrow>
     wfMap M0 \<and> seqOK M0 \<and> (\<forall>k\<in>set (keys M0). level (heap M0 k) < length lo)"

definition stepCell :: "(string \<Rightarrow> real) \<Rightarrow> FileData \<Rightarrow> real option \<Rightarrow> real option" where
  "stepCell m f c =
     (if falsy c \<or> length (children f) > 0
      then Some (max (or_zero c) (m (base f) + 40)) else c)"

fun specOffset :: "real list \<Rightarrow> nat \<Rightarrow> real" where
  "specOffset width 0 = 0"
| "specOffset width (Suc i) = specOffset width i + width ! i + 60"

definition charWidth :: "string \<Rightarrow> real" where
  "charWidth s = 8 * real (length s)"

definition parentsOK :: "filesMap \<Rightarrow> bool" where
  "parentsOK M \<longleftrightarrow>
     (\<forall>k\<in>set (keys M). parent (heap M k) = (if 0 < depth k then Some (dirname k) else None))"

definition onGrid :: "nat \<Rightarrow> real \<Rightarrow> bool" where
  "onGrid k x \<longleftrightarrow> (\<exists>n::nat. x = real n / 2 ^ k)"

fun runSum64 :: "real list \<Rightarrow> nat \<Rightarrow> real" where
  "runSum64 w 0 = w ! 0"
| "runSum64 w (Suc i) = fadd (runSum64 w i) (w ! Suc i)"

fun offset64 :: "real list \<Rightarrow> nat \<Rightarrow> real" where
  "offset64 w 0 = 0"
| "offset64 w (Suc i) = fadd (runSum64 w i) ((real i + 1) * 60)"

fun specOffset64 :: "real list \<Rightarrow> nat \<Rightarrow> real" where
  "specOffset64 width 0 = 0"
| "specOffset64 width (Suc i) = fadd (fadd (specOffset64 width i) (width ! i)) 60"

definition decimalWidth :: "string \<Rightarrow> real" where
  "decimalWidth s =
     (if s = ''a'' then 4383972762268467 / 70368744177664
      else if s = ''b'' then 5450059236560077 / 35184372088832
      else 8)"


section \<open>Proofs\<close>

lemma str_split_ne [simp]: "str_split c s \<noteq> []"
  by (induction s) auto

lemma str_split_free: "t \<in> set (str_split c s) \<Longrightarrow> c \<notin> set t"
proof (induction s arbitrary: t)
  case Nil
  then show ?case by simp
next
  case (Cons d ds)
  obtain u us where us: "str_split c ds = u # us"
    by (cases "str_split c ds") auto
  show ?case
  proof (cases "d = c")
    case True
    with Cons show ?thesis by auto
  next
    case False
    with Cons.prems us have "t = d # u \<or> t \<in> set us" by auto
    then show ?thesis
    proof
      assume "t = d # u"
      moreover have "c \<notin> set u" using Cons.IH [of u] us by simp
      ultimately show ?thesis using False by auto
    next
      assume "t \<in> set us"
      then show ?thesis using Cons.IH [of t] us by simp
    qed
  qed
qed

lemma str_join_split [simp]: "str_join c (str_split c s) = s"
proof (induction s)
  case Nil
  then show ?case by simp
next
  case (Cons d ds)
  obtain u us where us: "str_split c ds = u # us"
    by (cases "str_split c ds") auto
  show ?case
  proof (cases "d = c")
    case True
    with Cons us show ?thesis by simp
  next
    case False
    with Cons us show ?thesis by (cases us) auto
  qed
qed

lemma str_split_single: "c \<notin> set t \<Longrightarrow> str_split c t = [t]"
  by (induction t) auto

lemma str_split_append: "c \<notin> set t \<Longrightarrow> str_split c (t @ c # s) = t # str_split c s"
  by (induction t) auto

lemma str_split_join:
  "xs \<noteq> [] \<Longrightarrow> \<forall>t\<in>set xs. c \<notin> set t \<Longrightarrow> str_split c (str_join c xs) = xs"
proof (induction c xs rule: str_join.induct)
  case (1 c)
  then show ?case by simp
next
  case (2 c s)
  then show ?case by (simp add: str_split_single)
next
  case (3 c s t ts)
  then show ?case by (simp add: str_split_append)
qed

lemma segs_prefixAt:
  assumes "index < length (segs fp)"
  shows "segs (prefixAt (segs fp) index) = take (Suc index) (segs fp)"
proof -
  have "take (Suc index) (segs fp) \<noteq> []"
    using assms by (cases "segs fp") auto
  moreover have "\<forall>t\<in>set (take (Suc index) (segs fp)). CHR ''/'' \<notin> set t"
    using str_split_free [of _ "CHR ''/''" fp] by (auto simp: segs_def dest: in_set_takeD)
  ultimately show ?thesis
    unfolding prefixAt_def segs_def [symmetric]
    by (simp add: segs_def str_split_join)
qed

lemma depth_prefixAt: "index < length (segs fp) \<Longrightarrow> depth (prefixAt (segs fp) index) = index"
  by (simp add: depth_def segs_prefixAt)

lemma last_segs_prefixAt:
  "index < length (segs fp) \<Longrightarrow> last (segs (prefixAt (segs fp) index)) = segs fp ! index"
  by (simp add: segs_prefixAt last_conv_nth take_Suc_conv_app_nth)

lemma dirname_prefixAt:
  "Suc index < length (segs fp) \<Longrightarrow> dirname (prefixAt (segs fp) (Suc index)) = prefixAt (segs fp) index"
proof -
  assume a: "Suc index < length (segs fp)"
  have "segs (prefixAt (segs fp) (Suc index)) = take (Suc (Suc index)) (segs fp)"
    using a by (rule segs_prefixAt)
  then have "butlast (segs (prefixAt (segs fp) (Suc index))) = take (Suc index) (segs fp)"
    using a by (simp add: butlast_take)
  then show ?thesis by (simp add: dirname_def prefixAt_def)
qed

lemma prefixAt_inj:
  "i < length (segs fp) \<Longrightarrow> j < length (segs fp) \<Longrightarrow> prefixAt (segs fp) i = prefixAt (segs fp) j \<Longrightarrow> i = j"
  using depth_prefixAt by metis

lemma prefixAt_last: "prefixAt (segs fp) (length (segs fp) - 1) = fp"
  by (simp add: prefixAt_def segs_def)

lemma prefixAt_dirname_depth:
  assumes "0 < depth p"
  shows "prefixAt (segs p) (depth p - 1) = dirname p"
proof -
  have "Suc (depth p - 1) = length (segs p) - 1"
    using assms by (simp add: depth_def)
  then show ?thesis
    by (simp add: prefixAt_def dirname_def butlast_conv_take)
qed

lemma depth_dirname: "0 < depth p \<Longrightarrow> depth (dirname p) = depth p - 1"
  using depth_prefixAt [of "depth p - 1" p] prefixAt_dirname_depth [of p]
  by (simp add: depth_def)

subsection \<open>Effects of the builder's steps\<close>

lemma snd_nodeFor: "snd (nodeFor paths index M) = prefixAt paths index"
  by (simp add: nodeFor_def prefixAt_def Let_def)

lemma keys_ensure:
  "keys (ensure paths index M) =
     (if prefixAt paths index \<in> set (keys M) then keys M else keys M @ [prefixAt paths index])"
  by (simp add: ensure_def nodeFor_def prefixAt_def Let_def)

lemma heap_ensure:
  "heap (ensure paths index M) k =
     (if prefixAt paths index \<notin> set (keys M) \<and> k = prefixAt paths index
      then freshNode paths index else heap M k)"
  by (simp add: ensure_def nodeFor_def prefixAt_def freshNode_def Let_def)

lemma mapFiles_upto:
  "fold (\<lambda>index (M', files). case nodeFor paths index M' of (M'', d) \<Rightarrow> (M'', files @ [d]))
     [0..<j] (M, []) =
   (fold (ensure paths) [0..<j] M, map (prefixAt paths) [0..<j])"
proof (induction j)
  case 0
  then show ?case by simp
next
  case (Suc j)
  have "nodeFor paths j M' = (ensure paths j M', prefixAt paths j)" for M'
    unfolding ensure_def using snd_nodeFor [of paths j M'] by (cases "nodeFor paths j M'") simp
  with Suc show ?case by simp
qed

lemma mapFiles_eq:
  "mapFiles paths M =
     (fold (ensure paths) [0..<length paths] M, map (prefixAt paths) [0..<length paths])"
  unfolding mapFiles_def by (rule mapFiles_upto)

lemma keys_link [simp]: "keys (link files i M) = keys M"
  by (simp add: link_def Let_def)

lemma children_link:
  "children (heap (link files i M) k) =
     (if k = files ! (i - 1) \<and> files ! i \<notin> set (children (heap M k))
      then children (heap M k) @ [files ! i] else children (heap M k))"
  by (simp add: link_def Let_def)

lemma fields_link [simp]:
  "ftype (heap (link files i M) k) = ftype (heap M k)"
  "path (heap (link files i M) k) = path (heap M k)"
  "base (heap (link files i M) k) = base (heap M k)"
  "level (heap (link files i M) k) = level (heap M k)"
  "seq (heap (link files i M) k) = seq (heap M k)"
  "x_pos (heap (link files i M) k) = x_pos (heap M k)"
  "y_pos (heap (link files i M) k) = y_pos (heap M k)"
  by (simp_all add: link_def Let_def)

lemma addPath_eq:
  "addPath fp M =
     fold (link (map (prefixAt (segs fp)) [0..<length (segs fp)])) [1..<length (segs fp)]
       (fold (ensure (segs fp)) [0..<length (segs fp)] M)"
  by (simp add: addPath_def mapFiles_eq segs_def Let_def)

subsection \<open>Invariants of the builder\<close>

lemma nodeOK_fresh:
  assumes "index < length (segs fp)"
  shows "path (freshNode (segs fp) index) = prefixAt (segs fp) index"
    and "level (freshNode (segs fp) index) = depth (prefixAt (segs fp) index)"
    and "base (freshNode (segs fp) index) = last (segs (prefixAt (segs fp) index))"
    and "ftype (freshNode (segs fp) index) = Dir \<or> ftype (freshNode (segs fp) index) = Js"
    and "children (freshNode (segs fp) index) = []"
  using assms by (simp_all add: freshNode_def depth_prefixAt last_segs_prefixAt)

lemma ensure_nodesOK:
  assumes "index < length (segs fp)" and "nodesOK M"
  shows "nodesOK (ensure (segs fp) index M)"
proof (cases "prefixAt (segs fp) index \<in> set (keys M)")
  case True
  then have "keys (ensure (segs fp) index M) = keys M"
    and "\<And>k. heap (ensure (segs fp) index M) k = heap M k"
    by (simp_all add: keys_ensure heap_ensure)
  with assms(2) show ?thesis by (simp add: nodesOK_def nodeOK_def)
next
  case False
  let ?p = "prefixAt (segs fp) index"
  let ?M = "ensure (segs fp) index M"
  have ks: "keys ?M = keys M @ [?p]" using False by (simp add: keys_ensure)
  have new: "heap ?M ?p = freshNode (segs fp) index" using False by (simp add: heap_ensure)
  have old: "heap ?M k = heap M k" if "k \<in> set (keys M)" for k
    using that False by (auto simp: heap_ensure)
  have "nodeOK ?M k" if "k \<in> set (keys ?M)" for k
  proof (cases "k = ?p")
    case True
    then show ?thesis
      using nodeOK_fresh [OF assms(1)] new by (simp add: nodeOK_def)
  next
    case False
    with that ks have k: "k \<in> set (keys M)" by simp
    with assms(2) have "nodeOK M k" by (simp add: nodesOK_def)
    then show ?thesis using old [OF k] ks by (simp add: nodeOK_def)
  qed
  moreover have "distinct (keys ?M)"
    using assms(2) False ks by (simp add: nodesOK_def)
  ultimately show ?thesis by (simp add: nodesOK_def)
qed

lemma ensure_fold:
  assumes "nodesOK M" and "j \<le> length (segs fp)"
  shows "nodesOK (fold (ensure (segs fp)) [0..<j] M) \<and>
         keys (fold (ensure (segs fp)) [0..<j] M) =
           keys M @ filter (\<lambda>p. p \<notin> set (keys M)) (map (prefixAt (segs fp)) [0..<j]) \<and>
         (\<forall>k\<in>set (keys M). heap (fold (ensure (segs fp)) [0..<j] M) k = heap M k) \<and>
         (\<forall>i<j. prefixAt (segs fp) i \<notin> set (keys M) \<longrightarrow>
            heap (fold (ensure (segs fp)) [0..<j] M) (prefixAt (segs fp) i) = freshNode (segs fp) i)"
  using assms(2)
proof (induction j)
  case 0
  with assms(1) show ?case by simp
next
  case (Suc j)
  let ?Mj = "fold (ensure (segs fp)) [0..<j] M"
  let ?p = "prefixAt (segs fp) j"
  from Suc have j: "j < length (segs fp)" and IH:
    "nodesOK ?Mj"
    "keys ?Mj = keys M @ filter (\<lambda>p. p \<notin> set (keys M)) (map (prefixAt (segs fp)) [0..<j])"
    "\<forall>k\<in>set (keys M). heap ?Mj k = heap M k"
    "\<forall>i<j. prefixAt (segs fp) i \<notin> set (keys M) \<longrightarrow> heap ?Mj (prefixAt (segs fp) i) = freshNode (segs fp) i"
    by simp_all
  have step: "fold (ensure (segs fp)) [0..<Suc j] M = ensure (segs fp) j ?Mj" by simp
  have notprev: "?p \<noteq> prefixAt (segs fp) i" if "i < j" for i
    using prefixAt_inj [of j fp i] that j by auto
  have "?p \<notin> set (map (prefixAt (segs fp)) [0..<j])"
  proof
    assume "?p \<in> set (map (prefixAt (segs fp)) [0..<j])"
    then obtain i where "i < j" and "?p = prefixAt (segs fp) i" by auto
    with notprev show False by blast
  qed
  then have mem: "?p \<in> set (keys ?Mj) \<longleftrightarrow> ?p \<in> set (keys M)"
    using IH(2) by simp
  have c1: "nodesOK (ensure (segs fp) j ?Mj)"
    using ensure_nodesOK [OF j IH(1)] .
  have c2: "keys (ensure (segs fp) j ?Mj) =
      keys M @ filter (\<lambda>p. p \<notin> set (keys M)) (map (prefixAt (segs fp)) [0..<Suc j])"
    using IH(2) mem by (simp add: keys_ensure)
  have c3: "\<forall>k\<in>set (keys M). heap (ensure (segs fp) j ?Mj) k = heap M k"
    using IH(3) mem by (auto simp: heap_ensure)
  have c4: "\<forall>i<Suc j. prefixAt (segs fp) i \<notin> set (keys M) \<longrightarrow>
      heap (ensure (segs fp) j ?Mj) (prefixAt (segs fp) i) = freshNode (segs fp) i"
  proof (intro allI impI)
    fix i assume i: "i < Suc j" and n: "prefixAt (segs fp) i \<notin> set (keys M)"
    show "heap (ensure (segs fp) j ?Mj) (prefixAt (segs fp) i) = freshNode (segs fp) i"
    proof (cases "i = j")
      case True
      then show ?thesis using n mem by (simp add: heap_ensure)
    next
      case False
      with i have "i < j" by simp
      then show ?thesis using IH(4) n notprev [of i] by (simp add: heap_ensure)
    qed
  qed
  show ?case unfolding step using c1 c2 c3 c4 by blast
qed

lemma fold_link_fields [simp]:
  "keys (fold (link files) js M) = keys M"
  "ftype (heap (fold (link files) js M) k) = ftype (heap M k)"
  "path (heap (fold (link files) js M) k) = path (heap M k)"
  "base (heap (fold (link files) js M) k) = base (heap M k)"
  "level (heap (fold (link files) js M) k) = level (heap M k)"
  "seq (heap (fold (link files) js M) k) = seq (heap M k)"
  "x_pos (heap (fold (link files) js M) k) = x_pos (heap M k)"
  "y_pos (heap (fold (link files) js M) k) = y_pos (heap M k)"
  by (induction js arbitrary: M; simp)+

lemma link_nodesOK:
  assumes ok: "nodesOK M" and i: "0 < i" "i < length (segs fp)"
    and files: "files = map (prefixAt (segs fp)) [0..<length (segs fp)]"
    and mem: "prefixAt (segs fp) i \<in> set (keys M)"
  shows "nodesOK (link files i M)"
proof -
  obtain i' where i': "i = Suc i'" using i(1) by (cases i) auto
  have fi: "files ! i = prefixAt (segs fp) i" and fp: "files ! (i - Suc 0) = prefixAt (segs fp) i'"
    using i i' files by simp_all
  have dn: "dirname (prefixAt (segs fp) i) = prefixAt (segs fp) i'"
    using dirname_prefixAt [of i' fp] i i' by simp
  have dp: "0 < depth (prefixAt (segs fp) i)"
    using depth_prefixAt [of i fp] i by simp
  have "nodeOK (link files i M) k" if k: "k \<in> set (keys M)" for k
  proof -
    from ok k have "nodeOK M k" by (simp add: nodesOK_def)
    then show ?thesis
      unfolding nodeOK_def using mem dn dp
      by (auto simp: children_link fi fp)
  qed
  with ok show ?thesis by (simp add: nodesOK_def)
qed

lemma link_linkedOn:
  assumes "linkedOn K M"
  shows "linkedOn K (link files i M)"
  using assms unfolding linkedOn_def by (auto simp: children_link)

lemma link_links: "files ! i \<in> set (children (heap (link files i M) (files ! (i - 1))))"
  by (simp add: children_link)

lemma link_fold:
  assumes ok: "nodesOK M" and lk: "linkedOn K M"
    and files: "files = map (prefixAt (segs fp)) [0..<length (segs fp)]"
    and mem: "\<forall>i<length (segs fp). prefixAt (segs fp) i \<in> set (keys M)"
    and j: "j \<le> length (segs fp)"
  shows "nodesOK (fold (link files) [1..<j] M) \<and>
         linkedOn (K \<union> prefixAt (segs fp) ` {1..<j}) (fold (link files) [1..<j] M)"
  using j
proof (induction j)
  case 0
  with ok lk show ?case by simp
next
  case (Suc j)
  let ?Mj = "fold (link files) [1..<j] M"
  show ?case
  proof (cases "j = 0")
    case True
    with ok lk show ?thesis by simp
  next
    case False
    then have j0: "0 < j" by simp
    from Suc have jn: "j < length (segs fp)"
      and IH: "nodesOK ?Mj" "linkedOn (K \<union> prefixAt (segs fp) ` {1..<j}) ?Mj"
      by simp_all
    have step: "fold (link files) [1..<Suc j] M = link files j ?Mj"
      using j0 by simp
    have memj: "prefixAt (segs fp) j \<in> set (keys ?Mj)"
      using mem jn by simp
    have c1: "nodesOK (link files j ?Mj)"
      using link_nodesOK [OF IH(1) j0 jn files memj] .
    obtain j' where j': "j = Suc j'" using j0 by (cases j) auto
    have fj: "files ! j = prefixAt (segs fp) j" "files ! (j - Suc 0) = prefixAt (segs fp) j'"
      using jn j' files by simp_all
    have dn: "dirname (prefixAt (segs fp) j) = prefixAt (segs fp) j'"
      using dirname_prefixAt [of j' fp] jn j' by simp
    have "prefixAt (segs fp) j' \<in> set (keys M)" using mem jn j' by simp
    then have new: "linkedOn {prefixAt (segs fp) j} (link files j ?Mj)"
      using link_links [of files j ?Mj] dn by (simp add: linkedOn_def fj)
    have old: "linkedOn (K \<union> prefixAt (segs fp) ` {1..<j}) (link files j ?Mj)"
      using link_linkedOn [OF IH(2)] .
    have "{1..<Suc j} = insert j {1..<j}" using j0 by auto
    then have c2: "linkedOn (K \<union> prefixAt (segs fp) ` {1..<Suc j}) (link files j ?Mj)"
      using old new by (auto simp: linkedOn_def)
    show ?thesis unfolding step using c1 c2 by blast
  qed
qed

lemma set_prefixes: "set (prefixes fp) = prefixAt (segs fp) ` {0..<length (segs fp)}"
  by (simp add: prefixes_def)

lemma addPath_wf:
  assumes "wfMap M"
  shows "wfMap (addPath fp M)"
    and "keys (addPath fp M) = keys M @ filter (\<lambda>p. p \<notin> set (keys M)) (prefixes fp)"
    and "k \<in> set (keys M) \<Longrightarrow> ftype (heap (addPath fp M) k) = ftype (heap M k)"
    and "i < length (segs fp) \<Longrightarrow> prefixAt (segs fp) i \<notin> set (keys M) \<Longrightarrow>
         ftype (heap (addPath fp M) (prefixAt (segs fp) i)) =
           (if i = length (segs fp) - 1 then Js else Dir)"
proof -
  let ?n = "length (segs fp)"
  let ?M1 = "fold (ensure (segs fp)) [0..<?n] M"
  let ?files = "map (prefixAt (segs fp)) [0..<?n]"
  from assms have ok: "nodesOK M" and lk: "linkedOn (set (keys M)) M"
    by (simp_all add: wfMap_def)
  from ensure_fold [OF ok le_refl, of fp]
  have e1: "nodesOK ?M1"
    and e2: "keys ?M1 = keys M @ filter (\<lambda>p. p \<notin> set (keys M)) ?files"
    and e3: "\<forall>k\<in>set (keys M). heap ?M1 k = heap M k"
    and e4: "\<forall>i<?n. prefixAt (segs fp) i \<notin> set (keys M) \<longrightarrow>
               heap ?M1 (prefixAt (segs fp) i) = freshNode (segs fp) i"
    by blast+
  have mem: "\<forall>i<?n. prefixAt (segs fp) i \<in> set (keys ?M1)"
    using e2 by auto
  have lk1: "linkedOn (set (keys M)) ?M1"
    using lk e2 e3 unfolding linkedOn_def by simp
  from link_fold [OF e1 lk1 refl mem le_refl]
  have l1: "nodesOK (addPath fp M)"
    and l2: "linkedOn (set (keys M) \<union> prefixAt (segs fp) ` {1..<?n}) (addPath fp M)"
    unfolding addPath_eq by blast+
  show ks: "keys (addPath fp M) = keys M @ filter (\<lambda>p. p \<notin> set (keys M)) (prefixes fp)"
    unfolding addPath_eq using e2 by (simp add: prefixes_def)
  have "linkedOn (set (keys (addPath fp M))) (addPath fp M)"
    unfolding linkedOn_def
  proof (intro ballI impI)
    fix k assume k: "k \<in> set (keys (addPath fp M))" and d: "0 < depth k"
    have "k \<in> set (keys M) \<union> prefixAt (segs fp) ` {1..<?n}"
    proof (cases "k \<in> set (keys M)")
      case True
      then show ?thesis by simp
    next
      case False
      with k ks obtain i where i: "i < ?n" "k = prefixAt (segs fp) i"
        by (auto simp: set_prefixes)
      with d depth_prefixAt [of i fp] have "0 < i" by simp
      with i show ?thesis by auto
    qed
    with l2 d show "dirname k \<in> set (keys (addPath fp M)) \<and>
        k \<in> set (children (heap (addPath fp M) (dirname k)))"
      unfolding linkedOn_def by blast
  qed
  with l1 show "wfMap (addPath fp M)" by (simp add: wfMap_def)
  show "ftype (heap (addPath fp M) k) = ftype (heap M k)" if "k \<in> set (keys M)"
    unfolding addPath_eq using e3 that by simp
  show "ftype (heap (addPath fp M) (prefixAt (segs fp) i)) =
      (if i = length (segs fp) - 1 then Js else Dir)"
    if "i < length (segs fp)" "prefixAt (segs fp) i \<notin> set (keys M)"
    unfolding addPath_eq using e4 that by (simp add: freshNode_def)
qed

lemma buildMap_snoc: "buildMap (fps @ [fp]) = addPath fp (buildMap fps)"
  by (simp add: buildMap_def)

lemma wfMap_empty: "wfMap emptyMap"
  by (simp add: wfMap_def nodesOK_def linkedOn_def emptyMap_def)

lemma wfMap_buildMap: "wfMap (buildMap fps)"
proof (induction fps rule: rev_induct)
  case Nil
  then show ?case by (simp add: buildMap_def wfMap_empty)
next
  case (snoc fp fps)
  then show ?case by (simp add: buildMap_snoc addPath_wf(1))
qed

lemma keys_buildMap_snoc:
  "keys (buildMap (fps @ [fp])) =
     keys (buildMap fps) @ filter (\<lambda>p. p \<notin> set (keys (buildMap fps))) (prefixes fp)"
  unfolding buildMap_snoc using addPath_wf(2) [OF wfMap_buildMap] .

lemma set_keys_buildMap: "set (keys (buildMap fps)) = (\<Union>fp\<in>set fps. set (prefixes fp))"
proof (induction fps rule: rev_induct)
  case Nil
  then show ?case by (simp add: buildMap_def emptyMap_def)
next
  case (snoc fp fps)
  then show ?case unfolding keys_buildMap_snoc by auto
qed

subsection \<open>Prefixes, read off the string\<close>

lemma str_join_append:
  "xs \<noteq> [] \<Longrightarrow> ys \<noteq> [] \<Longrightarrow> str_join c (xs @ ys) = str_join c xs @ c # str_join c ys"
proof (induction c xs rule: str_join.induct)
  case (1 c)
  then show ?case by simp
next
  case (2 c s)
  then show ?case by (cases ys) auto
next
  case (3 c s t ts)
  then show ?case by simp
qed

lemma str_split_append_sep:
  "str_split c (p @ c # r) = str_split c p @ str_split c r"
proof (induction p)
  case Nil
  then show ?case by simp
next
  case (Cons d ds)
  have "str_split c ds \<noteq> []" by simp
  then show ?case using Cons by (cases "str_split c ds") auto
qed

lemma prefixes_iff:
  "p \<in> set (prefixes fp) \<longleftrightarrow> p = fp \<or> (\<exists>r. fp = p @ CHR ''/'' # r)"
proof
  assume "p \<in> set (prefixes fp)"
  then obtain i where i: "i < length (segs fp)" and p: "p = prefixAt (segs fp) i"
    by (auto simp: set_prefixes)
  let ?a = "take (Suc i) (segs fp)" and ?b = "drop (Suc i) (segs fp)"
  have a: "?a \<noteq> []" using i by (cases "segs fp") auto
  have fp: "fp = str_join CHR ''/'' (?a @ ?b)" by (simp add: segs_def)
  show "p = fp \<or> (\<exists>r. fp = p @ CHR ''/'' # r)"
  proof (cases "?b = []")
    case True
    with fp p show ?thesis by (simp add: prefixAt_def)
  next
    case False
    from str_join_append [OF a False, of "CHR ''/''"] fp p show ?thesis
      by (auto simp: prefixAt_def)
  qed
next
  assume "p = fp \<or> (\<exists>r. fp = p @ CHR ''/'' # r)"
  then show "p \<in> set (prefixes fp)"
  proof
    assume "p = fp"
    have "length (segs fp) - 1 < length (segs fp)"
      using str_split_ne [of "CHR ''/''" fp] by (simp add: segs_def)
    then have "prefixAt (segs fp) (length (segs fp) - 1) \<in> set (prefixes fp)"
      unfolding set_prefixes by (intro imageI) simp
    with \<open>p = fp\<close> show ?thesis by (simp only: prefixAt_last)
  next
    assume "\<exists>r. fp = p @ CHR ''/'' # r"
    then obtain r where r: "fp = p @ CHR ''/'' # r" ..
    then have sg: "segs fp = segs p @ segs r"
      by (simp add: segs_def str_split_append_sep)
    have ne: "segs p \<noteq> []" "segs r \<noteq> []" by (simp_all add: segs_def)
    let ?i = "length (segs p) - 1"
    have i: "?i < length (segs fp)" using sg ne by (cases "segs p") auto
    have "take (Suc ?i) (segs fp) = segs p" using sg ne by simp
    then have "prefixAt (segs fp) ?i = p" by (simp add: prefixAt_def segs_def)
    with i show ?thesis unfolding set_prefixes by force
  qed
qed

subsection \<open>Which kind a node gets\<close>

lemma find_snoc:
  "find P (xs @ [x]) = (case find P xs of Some y \<Rightarrow> Some y | None \<Rightarrow> if P x then Some x else None)"
  by (induction xs) auto

lemma ftype_buildMap:
  "k \<in> set (keys (buildMap fps)) \<Longrightarrow>
     ftype (heap (buildMap fps) k) =
       (if find (\<lambda>fp. k \<in> set (prefixes fp)) fps = Some k then Js else Dir)"
proof (induction fps arbitrary: k rule: rev_induct)
  case Nil
  then show ?case by (simp add: buildMap_def emptyMap_def)
next
  case (snoc fp fps)
  let ?M = "buildMap fps"
  show ?case
  proof (cases "k \<in> set (keys ?M)")
    case True
    then have "\<exists>fp'\<in>set fps. k \<in> set (prefixes fp')"
      by (simp add: set_keys_buildMap)
    then have "find (\<lambda>fp. k \<in> set (prefixes fp)) fps \<noteq> None"
      by (auto simp: find_None_iff)
    then have "find (\<lambda>fp. k \<in> set (prefixes fp)) (fps @ [fp]) =
        find (\<lambda>fp. k \<in> set (prefixes fp)) fps"
      by (auto simp: find_snoc)
    moreover have "ftype (heap (buildMap (fps @ [fp])) k) = ftype (heap ?M k)"
      unfolding buildMap_snoc using addPath_wf(3) [OF wfMap_buildMap True] .
    ultimately show ?thesis using snoc.IH [OF True] by simp
  next
    case False
    with snoc.prems obtain i where i: "i < length (segs fp)" and k: "k = prefixAt (segs fp) i"
      unfolding keys_buildMap_snoc by (auto simp: set_prefixes)
    have "\<not> (\<exists>fp'\<in>set fps. k \<in> set (prefixes fp'))"
      using False by (simp add: set_keys_buildMap)
    then have "find (\<lambda>fp. k \<in> set (prefixes fp)) fps = None"
      by (auto simp: find_None_iff)
    moreover have "k \<in> set (prefixes fp)" using i k by (simp add: set_prefixes)
    ultimately have f: "find (\<lambda>fp. k \<in> set (prefixes fp)) (fps @ [fp]) = Some fp"
      by (simp add: find_snoc)
    have n: "length (segs fp) - 1 < length (segs fp)" using i by simp
    have "i = length (segs fp) - 1 \<longleftrightarrow> fp = k"
      using prefixAt_inj [OF i n] prefixAt_last [of fp] k by auto
    moreover have "ftype (heap (buildMap (fps @ [fp])) k) =
        (if i = length (segs fp) - 1 then Js else Dir)"
      unfolding buildMap_snoc k using addPath_wf(4) [OF wfMap_buildMap i] False k by simp
    ultimately show ?thesis using f by simp
  qed
qed

subsection \<open>Sorting with a comparator\<close>

lemma set_insort_cmp [simp]: "set (insort_cmp cmp a bs) = insert a (set bs)"
  by (induction bs) auto

lemma length_insort_cmp [simp]: "length (insort_cmp cmp a bs) = Suc (length bs)"
  by (induction bs) auto

lemma distinct_insort_cmp [simp]:
  "distinct (insort_cmp cmp a bs) \<longleftrightarrow> a \<notin> set bs \<and> distinct bs"
  by (induction bs) auto

lemma toSorted_Cons: "toSorted cmp (x # xs) = insort_cmp cmp x (toSorted cmp xs)"
  by (simp add: toSorted_def)

lemma toSorted_Nil [simp]: "toSorted cmp [] = []"
  by (simp add: toSorted_def)

lemma set_toSorted [simp]: "set (toSorted cmp xs) = set xs"
  by (induction xs) (simp_all add: toSorted_Cons)

lemma length_toSorted [simp]: "length (toSorted cmp xs) = length xs"
  by (induction xs) (simp_all add: toSorted_Cons)

lemma distinct_toSorted [simp]: "distinct (toSorted cmp xs) \<longleftrightarrow> distinct xs"
  by (induction xs) (simp_all add: toSorted_Cons)

lemma sorted_insort_cmp:
  assumes "sorted_wrt (\<lambda>a b. cmp a b \<le> 0) bs"
    and "\<forall>b\<in>set bs. 0 < cmp a b \<longrightarrow> cmp b a \<le> 0"
    and "\<forall>b\<in>set bs. \<forall>c\<in>set bs. cmp a b \<le> 0 \<longrightarrow> cmp b c \<le> 0 \<longrightarrow> cmp a c \<le> 0"
  shows "sorted_wrt (\<lambda>a b. cmp a b \<le> 0) (insort_cmp cmp a bs)"
  using assms
proof (induction bs)
  case Nil
  then show ?case by simp
next
  case (Cons b bs)
  show ?case
  proof (cases "cmp a b \<le> 0")
    case True
    have "cmp a c \<le> 0" if "c \<in> set bs" for c
    proof -
      have "cmp b c \<le> 0" using Cons.prems(1) that by simp
      with True Cons.prems(3) that show ?thesis
        by (meson list.set_intros)
    qed
    with True Cons.prems(1) show ?thesis by simp
  next
    case False
    then have "cmp b a \<le> 0" using Cons.prems(2) by simp
    moreover have "sorted_wrt (\<lambda>a b. cmp a b \<le> 0) (insort_cmp cmp a bs)"
    proof (rule Cons.IH)
      show "sorted_wrt (\<lambda>a b. cmp a b \<le> 0) bs" using Cons.prems(1) by simp
      show "\<forall>b\<in>set bs. 0 < cmp a b \<longrightarrow> cmp b a \<le> 0" using Cons.prems(2) by simp
      show "\<forall>b\<in>set bs. \<forall>c\<in>set bs. cmp a b \<le> 0 \<longrightarrow> cmp b c \<le> 0 \<longrightarrow> cmp a c \<le> 0"
        using Cons.prems(3) by (meson list.set_intros(2))
    qed
    moreover have "\<forall>c\<in>set bs. cmp b c \<le> 0" using Cons.prems(1) by simp
    ultimately show ?thesis using False by simp
  qed
qed

lemma sorted_toSorted_on:
  assumes tot: "\<forall>a\<in>S. \<forall>b\<in>S. a \<noteq> b \<longrightarrow> 0 < cmp a b \<longrightarrow> cmp b a \<le> 0"
    and trans: "\<forall>a\<in>S. \<forall>b\<in>S. \<forall>c\<in>S. cmp a b \<le> 0 \<longrightarrow> cmp b c \<le> 0 \<longrightarrow> cmp a c \<le> 0"
  shows "set xs \<subseteq> S \<Longrightarrow> distinct xs \<Longrightarrow> sorted_wrt (\<lambda>a b. cmp a b \<le> 0) (toSorted cmp xs)"
proof (induction xs)
  case Nil
  then show ?case by simp
next
  case (Cons x xs)
  from Cons.prems have x: "x \<in> S" and xs: "set xs \<subseteq> S" and dx: "x \<notin> set xs" and d: "distinct xs"
    by simp_all
  have IH: "sorted_wrt (\<lambda>a b. cmp a b \<le> 0) (toSorted cmp xs)"
    using Cons.IH [OF xs d] .
  have t: "\<forall>b\<in>set (toSorted cmp xs). 0 < cmp x b \<longrightarrow> cmp b x \<le> 0"
  proof (intro ballI impI)
    fix b assume b: "b \<in> set (toSorted cmp xs)" and p: "0 < cmp x b"
    from b dx xs have "x \<noteq> b" "b \<in> S" by auto
    with tot x p show "cmp b x \<le> 0" by blast
  qed
  have "\<forall>b\<in>set (toSorted cmp xs). \<forall>c\<in>set (toSorted cmp xs).
      cmp x b \<le> 0 \<longrightarrow> cmp b c \<le> 0 \<longrightarrow> cmp x c \<le> 0"
  proof (intro ballI impI)
    fix b c assume "b \<in> set (toSorted cmp xs)" "c \<in> set (toSorted cmp xs)"
      and le: "cmp x b \<le> 0" "cmp b c \<le> 0"
    with xs have "b \<in> S" "c \<in> S" by auto
    with trans x le show "cmp x c \<le> 0" by blast
  qed
  with IH t show ?case
    unfolding toSorted_Cons by (rule sorted_insort_cmp)
qed

lemma sorted_toSorted_total:
  assumes tot: "\<forall>a b. 0 < cmp a b \<longrightarrow> cmp b a \<le> 0"
    and trans: "\<forall>a b c. cmp a b \<le> 0 \<longrightarrow> cmp b c \<le> 0 \<longrightarrow> cmp a c \<le> 0"
  shows "sorted_wrt (\<lambda>a b. cmp a b \<le> 0) (toSorted cmp xs)"
proof (induction xs)
  case Nil
  then show ?case by simp
next
  case (Cons x xs)
  have t: "\<forall>b\<in>set (toSorted cmp xs). 0 < cmp x b \<longrightarrow> cmp b x \<le> 0"
    using tot by blast
  have "\<forall>b\<in>set (toSorted cmp xs). \<forall>c\<in>set (toSorted cmp xs).
      cmp x b \<le> 0 \<longrightarrow> cmp b c \<le> 0 \<longrightarrow> cmp x c \<le> 0"
    using trans by blast
  with Cons.IH t show ?case
    unfolding toSorted_Cons by (rule sorted_insort_cmp)
qed

subsection \<open>Stores that differ in ranks and positions only\<close>

lemma sameShape_refl [simp]: "sameShape M M"
  by (simp add: sameShape_def)

lemma sameShape_trans: "sameShape M M' \<Longrightarrow> sameShape M' M'' \<Longrightarrow> sameShape M M''"
  by (simp add: sameShape_def)

lemma sameShapeD:
  assumes "sameShape M M'"
  shows "keys M' = keys M"
    and "children (heap M' k) = children (heap M k)"
    and "ftype (heap M' k) = ftype (heap M k)"
    and "path (heap M' k) = path (heap M k)"
    and "base (heap M' k) = base (heap M k)"
    and "level (heap M' k) = level (heap M k)"
    and "parent (heap M' k) = parent (heap M k)"
proof -
  from assms have "shape (heap M' k) = shape (heap M k)" by (simp add: sameShape_def)
  then show "children (heap M' k) = children (heap M k)"
    and "ftype (heap M' k) = ftype (heap M k)"
    and "path (heap M' k) = path (heap M k)"
    and "base (heap M' k) = base (heap M k)"
    and "level (heap M' k) = level (heap M k)"
    and "parent (heap M' k) = parent (heap M k)"
    by (simp_all add: shape_def)
  from assms show "keys M' = keys M" by (simp add: sameShape_def)
qed

lemma sortedChildren_sameShape:
  assumes "sameShape M M'"
  shows "sortedChildren M' k = sortedChildren M k"
proof -
  have "cmpChildren (heap M' a) (heap M' b) = cmpChildren (heap M a) (heap M b)" for a b
    by (simp add: cmpChildren_def sameShapeD(3,5) [OF assms])
  then show ?thesis
    by (simp add: sortedChildren_def sameShapeD(2) [OF assms])
qed

lemma rootsOf_sameShape: "sameShape M M' \<Longrightarrow> rootsOf M' = rootsOf M"
  by (simp add: rootsOf_def sameShapeD(1,6))

lemma nodeOK_sameShape: "sameShape M M' \<Longrightarrow> nodeOK M' k = nodeOK M k"
  by (simp add: nodeOK_def sameShapeD)

lemma wfMap_sameShape: "sameShape M M' \<Longrightarrow> wfMap M \<Longrightarrow> wfMap M'"
  by (simp add: wfMap_def nodesOK_def linkedOn_def nodeOK_sameShape sameShapeD)

subsection \<open>Ranking\<close>

lemma keys_setSeq [simp]: "keys (setSeq k v M) = keys M"
  by (simp add: setSeq_def)

lemma shape_setSeq [simp]: "shape (heap (setSeq k v M) k') = shape (heap M k')"
  by (simp add: setSeq_def shape_def)

lemma seqOf_setSeq [simp]: "seqOf (setSeq k v M) k' = (if k' = k then v else seqOf M k')"
  by (simp add: setSeq_def seqOf_def)

lemma sameShape_setSeq: "sameShape M (setSeq k v M)"
  by (simp add: sameShape_def)

lemma fold_setSeq:
  "length js = length cs \<Longrightarrow>
   sameShape M (fold (\<lambda>(child, index). setSeq child index) (zip cs js) M) \<and>
   (\<forall>k. k \<notin> set cs \<longrightarrow>
      seqOf (fold (\<lambda>(child, index). setSeq child index) (zip cs js) M) k = seqOf M k) \<and>
   (distinct cs \<longrightarrow> (\<forall>i<length cs.
      seqOf (fold (\<lambda>(child, index). setSeq child index) (zip cs js) M) (cs ! i) = js ! i))"
proof (induction cs arbitrary: js M)
  case Nil
  then show ?case by simp
next
  case (Cons c cs)
  then obtain j js' where js: "js = j # js'" and len: "length js' = length cs"
    by (cases js) auto
  let ?M1 = "setSeq c j M"
  let ?M2 = "fold (\<lambda>(child, index). setSeq child index) (zip cs js') ?M1"
  have eq: "fold (\<lambda>(child, index). setSeq child index) (zip (c # cs) js) M = ?M2"
    by (simp add: js)
  from Cons.IH [OF len, of ?M1]
  have s: "sameShape ?M1 ?M2"
    and o: "\<And>k. k \<notin> set cs \<Longrightarrow> seqOf ?M2 k = seqOf ?M1 k"
    and n: "distinct cs \<Longrightarrow> i < length cs \<Longrightarrow> seqOf ?M2 (cs ! i) = js' ! i" for i
    by blast+
  have c1: "sameShape M ?M2"
    using sameShape_trans [OF sameShape_setSeq s] .
  have c2: "\<forall>k. k \<notin> set (c # cs) \<longrightarrow> seqOf ?M2 k = seqOf M k"
    using o by simp
  have c3: "distinct (c # cs) \<longrightarrow> (\<forall>i<length (c # cs). seqOf ?M2 ((c # cs) ! i) = js ! i)"
  proof (intro impI allI)
    fix i assume d: "distinct (c # cs)" and i: "i < length (c # cs)"
    show "seqOf ?M2 ((c # cs) ! i) = js ! i"
    proof (cases i)
      case 0
      then show ?thesis using o [of c] d by (simp add: js)
    next
      case (Suc i')
      then show ?thesis using n [of i'] d i by (simp add: js)
    qed
  qed
  show ?case unfolding eq using c1 c2 c3 by blast
qed

lemma wf_children:
  assumes "wfMap M" and "k \<in> set (keys M)" and "c \<in> set (children (heap M k))"
  shows "c \<in> set (keys M)" and "0 < depth c" and "dirname c = k"
    and "level (heap M c) = Suc (level (heap M k))"
proof -
  from assms(1,2) have ok: "nodeOK M k" by (simp add: wfMap_def nodesOK_def)
  with assms(3) show c: "c \<in> set (keys M)" and d: "0 < depth c" and dn: "dirname c = k"
    by (simp_all add: nodeOK_def)
  from assms(1) c have "nodeOK M c" by (simp add: wfMap_def nodesOK_def)
  then have "level (heap M c) = depth c" by (simp add: nodeOK_def)
  moreover from ok have "level (heap M k) = depth k" by (simp add: nodeOK_def)
  ultimately show "level (heap M c) = Suc (level (heap M k))"
    using depth_dirname [OF d] dn d by simp
qed

lemma wf_distinct_children:
  "wfMap M \<Longrightarrow> k \<in> set (keys M) \<Longrightarrow> distinct (children (heap M k))"
  by (simp add: wfMap_def nodesOK_def nodeOK_def)

lemma map_eq_upt:
  assumes "\<And>i. i < length xs \<Longrightarrow> f (xs ! i) = i"
  shows "map f xs = [0..<length xs]"
  by (rule nth_equalityI) (simp_all add: assms)

lemma seqStep_effect:
  assumes wf: "wfMap M0" and sh: "sameShape M0 M" and k: "k \<in> set (keys M0)"
  shows "snd (seqStep k (M, r)) = (if level (heap M0 k) = 0 then Suc r else r)"
    and "sameShape M0 (fst (seqStep k (M, r)))"
    and "\<And>c. c \<notin> set (children (heap M0 k)) \<Longrightarrow> c \<noteq> k \<or> level (heap M0 k) \<noteq> 0 \<Longrightarrow>
           seqOf (fst (seqStep k (M, r))) c = seqOf M c"
    and "level (heap M0 k) = 0 \<Longrightarrow> seqOf (fst (seqStep k (M, r))) k = r"
    and "map (seqOf (fst (seqStep k (M, r)))) (sortedChildren M0 k) =
           [0..<length (children (heap M0 k))]"
proof -
  let ?root = "level (heap M0 k) = 0"
  let ?M1 = "if ?root then setSeq k r M else M"
  let ?kids = "sortedChildren M0 k"
  let ?M2 = "fold (\<lambda>(child, index). setSeq child index) (zip ?kids [0..<length ?kids]) ?M1"
  have sh1: "sameShape M0 ?M1"
    using sh sameShape_trans [OF sh sameShape_setSeq] by simp
  have kids1: "sortedChildren ?M1 k = ?kids"
    using sortedChildren_sameShape [OF sh1] .
  have lv: "level (heap M k) = level (heap M0 k)"
    using sameShapeD(6) [OF sh] .
  have step: "seqStep k (M, r) = (?M2, if ?root then Suc r else r)"
  proof (cases ?root)
    case True
    with kids1 have "sortedChildren (setSeq k r M) k = ?kids" by simp
    with True lv show ?thesis unfolding seqStep_def by (simp add: Let_def)
  next
    case False
    with kids1 have "sortedChildren M k = ?kids" by simp
    with False lv show ?thesis unfolding seqStep_def by (simp add: Let_def)
  qed
  have set_kids: "set ?kids = set (children (heap M0 k))"
    and len_kids: "length ?kids = length (children (heap M0 k))"
    and dist_kids: "distinct ?kids"
    using wf_distinct_children [OF wf k] by (simp_all add: sortedChildren_def)
  from fold_setSeq [of "[0..<length ?kids]" ?kids ?M1]
  have s: "sameShape ?M1 ?M2"
    and o: "\<And>c. c \<notin> set ?kids \<Longrightarrow> seqOf ?M2 c = seqOf ?M1 c"
    and n: "\<And>i. i < length ?kids \<Longrightarrow> seqOf ?M2 (?kids ! i) = i"
    using dist_kids by simp_all
  have c1: "sameShape M0 ?M2" using sameShape_trans [OF sh1 s] .
  have c2: "\<forall>c. c \<notin> set (children (heap M0 k)) \<and> (c \<noteq> k \<or> \<not> ?root) \<longrightarrow> seqOf ?M2 c = seqOf M c"
    using o set_kids by auto
  have "k \<notin> set ?kids"
  proof
    assume "k \<in> set ?kids"
    then have "k \<in> set (children (heap M0 k))" using set_kids by simp
    from wf_children(4) [OF wf k this] show False by simp
  qed
  then have "seqOf ?M2 k = seqOf ?M1 k" by (rule o)
  then have c3: "?root \<longrightarrow> seqOf ?M2 k = r"
    by (cases ?root) simp_all
  have c4: "map (seqOf ?M2) ?kids = [0..<length (children (heap M0 k))]"
    using map_eq_upt [of ?kids "seqOf ?M2"] n len_kids by simp
  show "snd (seqStep k (M, r)) = (if level (heap M0 k) = 0 then Suc r else r)"
    and "sameShape M0 (fst (seqStep k (M, r)))"
    and "\<And>c. c \<notin> set (children (heap M0 k)) \<Longrightarrow> c \<noteq> k \<or> level (heap M0 k) \<noteq> 0 \<Longrightarrow>
           seqOf (fst (seqStep k (M, r))) c = seqOf M c"
    and "level (heap M0 k) = 0 \<Longrightarrow> seqOf (fst (seqStep k (M, r))) k = r"
    and "map (seqOf (fst (seqStep k (M, r)))) (sortedChildren M0 k) =
           [0..<length (children (heap M0 k))]"
    unfolding step fst_conv snd_conv using c1 c2 c3 c4 by blast+
qed

lemma seq_fold:
  assumes wf: "wfMap M0"
  shows "set ks \<subseteq> set (keys M0) \<Longrightarrow> distinct ks \<Longrightarrow>
     snd (fold seqStep ks (M0, 0)) = length (filter (\<lambda>k. level (heap M0 k) = 0) ks) \<and>
     sameShape M0 (fst (fold seqStep ks (M0, 0))) \<and>
     (\<forall>k\<in>set ks. map (seqOf (fst (fold seqStep ks (M0, 0)))) (sortedChildren M0 k) =
         [0..<length (children (heap M0 k))]) \<and>
     map (seqOf (fst (fold seqStep ks (M0, 0)))) (filter (\<lambda>k. level (heap M0 k) = 0) ks) =
       [0..<length (filter (\<lambda>k. level (heap M0 k) = 0) ks)]"
proof (induction ks rule: rev_induct)
  case Nil
  then show ?case by simp
next
  case (snoc k ks)
  let ?root = "\<lambda>k. level (heap M0 k) = 0"
  let ?r = "length (filter ?root ks)"
  let ?M' = "fst (fold seqStep ks (M0, 0))"
  let ?M2 = "fst (seqStep k (?M', ?r))"
  from snoc.prems have sub: "set ks \<subseteq> set (keys M0)" and d: "distinct ks"
    and k: "k \<in> set (keys M0)" and kn: "k \<notin> set ks"
    by simp_all
  from snoc.IH [OF sub d] have
    f: "snd (fold seqStep ks (M0, 0)) = ?r" and sh: "sameShape M0 ?M'"
    and ch: "\<forall>k\<in>set ks. map (seqOf ?M') (sortedChildren M0 k) = [0..<length (children (heap M0 k))]"
    and rt: "map (seqOf ?M') (filter ?root ks) = [0..<?r]"
    by simp_all
  have "fold seqStep ks (M0, 0) = (?M', ?r)"
    using f by (cases "fold seqStep ks (M0, 0)") simp
  then have fo: "fold seqStep (ks @ [k]) (M0, 0) = seqStep k (?M', ?r)"
    by simp
  note eff = seqStep_effect [OF wf sh k, where r = "?r"]
  have len: "length (filter ?root (ks @ [k])) = (if ?root k then Suc ?r else ?r)"
    by simp
  have c1: "snd (seqStep k (?M', ?r)) = length (filter ?root (ks @ [k]))"
    using eff(1) len by simp
  have c2: "\<forall>k'\<in>set (ks @ [k]).
      map (seqOf ?M2) (sortedChildren M0 k') = [0..<length (children (heap M0 k'))]"
  proof
    fix k' assume k': "k' \<in> set (ks @ [k])"
    show "map (seqOf ?M2) (sortedChildren M0 k') = [0..<length (children (heap M0 k'))]"
    proof (cases "k' = k")
      case True
      with eff(5) show ?thesis by simp
    next
      case False
      with k' have k'ks: "k' \<in> set ks" by simp
      with sub have k'keys: "k' \<in> set (keys M0)" by auto
      have "seqOf ?M2 c = seqOf ?M' c" if c: "c \<in> set (sortedChildren M0 k')" for c
      proof -
        from c have cc: "c \<in> set (children (heap M0 k'))" by (simp add: sortedChildren_def)
        have "c \<notin> set (children (heap M0 k))"
          using wf_children(3) [OF wf k'keys cc] wf_children(3) [OF wf k, of c] False by auto
        moreover have "c \<noteq> k \<or> \<not> ?root k"
          using wf_children(4) [OF wf k'keys cc] by auto
        ultimately show ?thesis by (rule eff(3))
      qed
      then have "map (seqOf ?M2) (sortedChildren M0 k') = map (seqOf ?M') (sortedChildren M0 k')"
        by simp
      with ch k'ks show ?thesis by simp
    qed
  qed
  have old_roots: "map (seqOf ?M2) (filter ?root ks) = [0..<?r]"
  proof -
    have "seqOf ?M2 c = seqOf ?M' c" if c: "c \<in> set (filter ?root ks)" for c
    proof -
      from c have cr: "?root c" and cks: "c \<in> set ks" by simp_all
      have "c \<notin> set (children (heap M0 k))"
        using wf_children(4) [OF wf k, of c] cr by auto
      moreover have "c \<noteq> k" using cks kn by auto
      ultimately show ?thesis using eff(3) by simp
    qed
    then have "map (seqOf ?M2) (filter ?root ks) = map (seqOf ?M') (filter ?root ks)"
      by simp
    with rt show ?thesis by simp
  qed
  have c3: "map (seqOf ?M2) (filter ?root (ks @ [k])) = [0..<length (filter ?root (ks @ [k]))]"
    using old_roots eff(4) by (cases "?root k") simp_all
  show ?case
    unfolding fo by (intro conjI c1 eff(2) c2 c3)
qed

lemma assignSeq_ok:
  assumes wf: "wfMap M0"
  shows "sameShape M0 (assignSeq M0)" and "wfMap (assignSeq M0)" and "seqOK (assignSeq M0)"
proof -
  have d: "distinct (keys M0)" using wf by (simp add: wfMap_def nodesOK_def)
  let ?M' = "assignSeq M0"
  from seq_fold [OF wf subset_refl d] have
    sh: "sameShape M0 ?M'"
    and ch: "\<forall>k\<in>set (keys M0). map (seqOf ?M') (sortedChildren M0 k) = [0..<length (children (heap M0 k))]"
    and rt: "map (seqOf ?M') (filter (\<lambda>k. level (heap M0 k) = 0) (keys M0)) =
         [0..<length (filter (\<lambda>k. level (heap M0 k) = 0) (keys M0))]"
    unfolding assignSeq_def by simp_all
  show "sameShape M0 ?M'" using sh .
  then show "wfMap ?M'" using wf by (rule wfMap_sameShape)
  have "rootsOf ?M' = filter (\<lambda>k. level (heap M0 k) = 0) (keys M0)"
    using rootsOf_sameShape [OF sh] by (simp add: rootsOf_def)
  then show "seqOK ?M'"
    unfolding seqOK_def using ch rt
    by (simp add: sortedChildren_sameShape [OF sh] sameShapeD(1,2) [OF sh])
qed

subsection \<open>Siblings are told apart by their names\<close>

lemma path_split:
  assumes "0 < depth c"
  shows "c = dirname c @ CHR ''/'' # last (segs c)"
proof -
  have ne: "segs c \<noteq> []" by (simp add: segs_def)
  from assms have b: "butlast (segs c) \<noteq> []"
    by (cases "segs c" rule: rev_cases) (auto simp: depth_def)
  have "c = str_join CHR ''/'' (butlast (segs c) @ [last (segs c)])"
    using ne by (simp add: segs_def)
  also have "\<dots> = str_join CHR ''/'' (butlast (segs c)) @ CHR ''/'' # str_join CHR ''/'' [last (segs c)]"
    using b by (intro str_join_append) simp_all
  finally show ?thesis by (simp add: dirname_def)
qed

lemma siblings_base:
  assumes wf: "wfMap M" and k: "k \<in> set (keys M)"
    and a: "a \<in> set (children (heap M k))" and b: "b \<in> set (children (heap M k))"
    and eq: "base (heap M a) = base (heap M b)"
  shows "a = b"
proof -
  have "nodeOK M a" "nodeOK M b"
    using wf wf_children(1) [OF wf k a] wf_children(1) [OF wf k b]
    by (simp_all add: wfMap_def nodesOK_def)
  then have "last (segs a) = last (segs b)" using eq by (simp add: nodeOK_def)
  moreover have "dirname a = dirname b"
    using wf_children(3) [OF wf k a] wf_children(3) [OF wf k b] by simp
  ultimately show ?thesis
    using path_split [OF wf_children(2) [OF wf k a]] path_split [OF wf_children(2) [OF wf k b]]
    by simp
qed

lemma wf_ftype:
  "wfMap M \<Longrightarrow> k \<in> set (keys M) \<Longrightarrow> ftype (heap M k) = Dir \<or> ftype (heap M k) = Js"
  by (simp add: wfMap_def nodesOK_def nodeOK_def)

lemma cmpChildren_same:
  "ftype a = ftype b \<Longrightarrow> cmpChildren a b \<le> 0 \<longleftrightarrow> base a < base b"
  by (simp add: cmpChildren_def)

lemma cmpChildren_diff:
  "ftype a \<noteq> ftype b \<Longrightarrow> ftype a = Dir \<or> ftype a = Js \<Longrightarrow> ftype b = Dir \<or> ftype b = Js \<Longrightarrow>
   cmpChildren a b \<le> 0 \<longleftrightarrow> ftype a = Dir"
  by (auto simp: cmpChildren_def)

lemma sortedChildren_sorted:
  assumes wf: "wfMap M" and k: "k \<in> set (keys M)"
  shows "sorted_wrt (\<lambda>a b. cmpChildren (heap M a) (heap M b) \<le> 0) (sortedChildren M k)"
  unfolding sortedChildren_def
proof (rule sorted_toSorted_on [where S = "set (children (heap M k))"])
  let ?S = "set (children (heap M k))"
  have ty: "ftype (heap M a) = Dir \<or> ftype (heap M a) = Js" if "a \<in> ?S" for a
    using wf_ftype [OF wf wf_children(1) [OF wf k that]] .
  show "\<forall>a\<in>?S. \<forall>b\<in>?S. a \<noteq> b \<longrightarrow>
      0 < cmpChildren (heap M a) (heap M b) \<longrightarrow> cmpChildren (heap M b) (heap M a) \<le> 0"
  proof (intro ballI impI)
    fix a b assume a: "a \<in> ?S" and b: "b \<in> ?S" and ne: "a \<noteq> b"
      and p: "0 < cmpChildren (heap M a) (heap M b)"
    have nb: "base (heap M a) \<noteq> base (heap M b)"
      using siblings_base [OF wf k a b] ne by auto
    from p have n: "\<not> cmpChildren (heap M a) (heap M b) \<le> 0" by simp
    show "cmpChildren (heap M b) (heap M a) \<le> 0"
    proof (cases "ftype (heap M a) = ftype (heap M b)")
      case True
      with n have "\<not> base (heap M a) < base (heap M b)" by (simp add: cmpChildren_same)
      with nb have "base (heap M b) < base (heap M a)" by simp
      with True show ?thesis by (simp add: cmpChildren_same)
    next
      case False
      with n ty [OF a] ty [OF b] have "ftype (heap M a) \<noteq> Dir" by (simp add: cmpChildren_diff)
      with False ty [OF a] ty [OF b] have "ftype (heap M b) = Dir" by auto
      moreover from False have "ftype (heap M b) \<noteq> ftype (heap M a)" by simp
      ultimately show ?thesis using ty [OF a] ty [OF b] by (simp add: cmpChildren_diff)
    qed
  qed
  show "\<forall>a\<in>?S. \<forall>b\<in>?S. \<forall>c\<in>?S.
      cmpChildren (heap M a) (heap M b) \<le> 0 \<longrightarrow> cmpChildren (heap M b) (heap M c) \<le> 0 \<longrightarrow>
      cmpChildren (heap M a) (heap M c) \<le> 0"
  proof (intro ballI impI)
    fix a b c assume a: "a \<in> ?S" and b: "b \<in> ?S" and c: "c \<in> ?S"
      and ab: "cmpChildren (heap M a) (heap M b) \<le> 0"
      and bc: "cmpChildren (heap M b) (heap M c) \<le> 0"
    show "cmpChildren (heap M a) (heap M c) \<le> 0"
    proof (cases "ftype (heap M a) = ftype (heap M b)")
      case ab_same: True
      with ab have 1: "base (heap M a) < base (heap M b)" by (simp add: cmpChildren_same)
      show ?thesis
      proof (cases "ftype (heap M b) = ftype (heap M c)")
        case True
        with bc have "base (heap M b) < base (heap M c)" by (simp add: cmpChildren_same)
        with 1 have "base (heap M a) < base (heap M c)" by simp
        with True ab_same show ?thesis by (simp add: cmpChildren_same)
      next
        case False
        with bc ty [OF b] ty [OF c] have "ftype (heap M b) = Dir" by (simp add: cmpChildren_diff)
        with False ab_same ty [OF a] ty [OF c] show ?thesis by (simp add: cmpChildren_diff)
      qed
    next
      case ab_diff: False
      with ab ty [OF a] ty [OF b] have ad: "ftype (heap M a) = Dir" by (simp add: cmpChildren_diff)
      with ab_diff ty [OF b] have bj: "ftype (heap M b) = Js" by auto
      have "ftype (heap M c) \<noteq> Dir"
      proof
        assume cd: "ftype (heap M c) = Dir"
        with bj have "ftype (heap M b) \<noteq> ftype (heap M c)" by simp
        with bc ty [OF b] ty [OF c] have "ftype (heap M b) = Dir" by (simp add: cmpChildren_diff)
        with bj show False by simp
      qed
      with ty [OF c] have "ftype (heap M c) = Js" by simp
      with ad ty [OF a] show ?thesis by (simp add: cmpChildren_diff)
    qed
  qed
  show "set (children (heap M k)) \<subseteq> ?S" by simp
  show "distinct (children (heap M k))" using wf_distinct_children [OF wf k] .
qed

lemma nth_of_rank:
  assumes "map f xs = [0..<length xs]" and "a \<in> set xs"
  shows "f a < length xs" and "xs ! f a = a"
proof -
  from assms(2) obtain i where i: "i < length xs" "xs ! i = a"
    by (auto simp: in_set_conv_nth)
  have "map f xs ! i = [0..<length xs] ! i" using assms(1) by simp
  with i have "f a = i" by simp
  with i show "f a < length xs" and "xs ! f a = a" by simp_all
qed

lemma children_ranked:
  assumes wf: "wfMap M" and ok: "seqOK M" and k: "k \<in> set (keys M)"
    and a: "a \<in> set (children (heap M k))" and b: "b \<in> set (children (heap M k))"
    and lt: "seqOf M a < seqOf M b"
  shows "cmpChildren (heap M a) (heap M b) \<le> 0"
proof -
  let ?L = "sortedChildren M k"
  have m: "map (seqOf M) ?L = [0..<length ?L]"
    using ok k by (simp add: seqOK_def sortedChildren_def)
  have sa: "a \<in> set ?L" and sb: "b \<in> set ?L"
    using a b by (simp_all add: sortedChildren_def)
  from nth_of_rank [OF m sa] nth_of_rank [OF m sb]
  have "seqOf M a < length ?L" "?L ! seqOf M a = a" "seqOf M b < length ?L" "?L ! seqOf M b = b"
    by simp_all
  with sorted_wrt_nth_less [OF sortedChildren_sorted [OF wf k] lt]
  show ?thesis by simp
qed

subsection \<open>The roots, in the order of the map\<close>

lemma firstSeen_snoc:
  "firstSeen (xs @ [x]) = (if x \<in> set xs then firstSeen xs else firstSeen xs @ [x])"
  by (simp add: firstSeen_def)

lemma set_firstSeen [simp]: "set (firstSeen xs) = set xs"
  by (simp add: firstSeen_def)

lemma prefixAt_0: "prefixAt (segs fp) 0 = hd (segs fp)"
proof -
  obtain s ss where "segs fp = s # ss"
    using str_split_ne [of "CHR ''/''" fp] by (cases "segs fp") (auto simp: segs_def)
  then show ?thesis by (simp add: prefixAt_def)
qed

lemma depth_hd_segs: "depth (hd (segs fp)) = 0"
proof -
  have "0 < length (segs fp)" by (simp add: segs_def)
  from depth_prefixAt [OF this] show ?thesis by (simp add: prefixAt_0)
qed

lemma root_prefixes:
  "filter (\<lambda>p. depth p = 0 \<and> Q p) (prefixes fp) = (if Q (hd (segs fp)) then [hd (segs fp)] else [])"
proof -
  let ?n = "length (segs fp)"
  have n: "0 < ?n" by (simp add: segs_def)
  then have upt: "[0..<?n] = 0 # [1..<?n]" by (simp add: upt_conv_Cons)
  have "filter (\<lambda>p. depth p = 0 \<and> Q p) (map (prefixAt (segs fp)) [1..<?n]) = []"
  proof -
    have "\<not> (depth p = 0 \<and> Q p)" if "p \<in> set (map (prefixAt (segs fp)) [1..<?n])" for p
    proof -
      from that obtain i where "1 \<le> i" "i < ?n" "p = prefixAt (segs fp) i" by auto
      then show ?thesis using depth_prefixAt [of i fp] by simp
    qed
    then show ?thesis by (simp add: filter_empty_conv)
  qed
  then show ?thesis
    unfolding prefixes_def upt using depth_hd_segs [of fp] by (simp add: prefixAt_0)
qed

lemma roots_buildMap:
  "filter (\<lambda>k. depth k = 0) (keys (buildMap fps)) = firstSeen (map (\<lambda>fp. hd (segs fp)) fps)"
proof (induction fps rule: rev_induct)
  case Nil
  then show ?case by (simp add: buildMap_def emptyMap_def firstSeen_def)
next
  case (snoc fp fps)
  let ?M = "buildMap fps"
  let ?h = "hd (segs fp)"
  have "set (filter (\<lambda>k. depth k = 0) (keys ?M)) = set (map (\<lambda>fp. hd (segs fp)) fps)"
    using snoc.IH by simp
  then have "?h \<in> set (filter (\<lambda>k. depth k = 0) (keys ?M)) \<longleftrightarrow>
      ?h \<in> set (map (\<lambda>fp. hd (segs fp)) fps)"
    by (simp only:)
  then have mem: "?h \<in> set (keys ?M) \<longleftrightarrow> ?h \<in> set (map (\<lambda>fp. hd (segs fp)) fps)"
    using depth_hd_segs [of fp] by simp
  have "filter (\<lambda>k. depth k = 0) (filter (\<lambda>p. p \<notin> set (keys ?M)) (prefixes fp)) =
      filter (\<lambda>p. depth p = 0 \<and> p \<notin> set (keys ?M)) (prefixes fp)"
    by (simp add: conj_commute)
  also have "\<dots> = (if ?h \<notin> set (keys ?M) then [?h] else [])"
    by (rule root_prefixes)
  finally show ?case
    unfolding keys_buildMap_snoc using snoc.IH mem
    by (simp add: firstSeen_snoc)
qed

lemma rootsOf_wf:
  assumes "wfMap M"
  shows "rootsOf M = filter (\<lambda>k. depth k = 0) (keys M)"
proof -
  have "level (heap M k) = depth k" if "k \<in> set (keys M)" for k
    using assms that by (simp add: wfMap_def nodesOK_def nodeOK_def)
  then show ?thesis unfolding rootsOf_def by (intro filter_cong) simp_all
qed

subsection \<open>Subtrees\<close>

lemma subtree_self [simp]: "k \<in> subtree M k"
  by (simp add: subtree_def)

lemma subtree_child:
  "c \<in> set (children (heap M k)) \<Longrightarrow> m \<in> subtree M c \<Longrightarrow> m \<in> subtree M k"
  by (auto simp: subtree_def childRel_def intro: converse_rtrancl_into_rtrancl)

lemma subtree_step:
  "m \<in> subtree M k \<Longrightarrow> c \<in> set (children (heap M m)) \<Longrightarrow> c \<in> subtree M k"
  by (auto simp: subtree_def childRel_def intro: rtrancl_into_rtrancl)

lemma subtree_cases:
  assumes "m \<in> subtree M k"
  shows "m = k \<or> (\<exists>c\<in>set (children (heap M k)). m \<in> subtree M c)"
proof -
  from assms have "(k, m) \<in> (childRel M)\<^sup>*" by (simp add: subtree_def)
  then show ?thesis
  proof (cases rule: converse_rtranclE)
    case base
    then show ?thesis by simp
  next
    case (step c)
    then show ?thesis by (auto simp: subtree_def childRel_def)
  qed
qed

lemma subtree_unfold:
  "subtree M k = insert k (\<Union>c\<in>set (children (heap M k)). subtree M c)"
  using subtree_cases [of _ M k] subtree_child [of _ M k] by auto

lemma subtree_trans: "m \<in> subtree M k \<Longrightarrow> u \<in> subtree M m \<Longrightarrow> u \<in> subtree M k"
  by (auto simp: subtree_def)

lemma subtree_sameShape: "sameShape M M' \<Longrightarrow> subtree M' = subtree M"
  by (simp add: subtree_def childRel_def sameShapeD(2) fun_eq_iff)

lemma subtree_induct [consumes 1, case_names self child]:
  assumes "m \<in> subtree M k"
    and "P k"
    and "\<And>u c. u \<in> subtree M k \<Longrightarrow> P u \<Longrightarrow> c \<in> set (children (heap M u)) \<Longrightarrow> P c"
  shows "P m"
proof -
  from assms(1) have "(k, m) \<in> (childRel M)\<^sup>*" by (simp add: subtree_def)
  then show ?thesis
  proof (induction rule: rtrancl_induct)
    case base
    then show ?case by (rule assms(2))
  next
    case (step u c)
    then show ?case using assms(3) [of u c] by (simp add: subtree_def childRel_def)
  qed
qed

lemma subtree_keys:
  assumes wf: "wfMap M" and k: "k \<in> set (keys M)" and m: "m \<in> subtree M k"
  shows "m \<in> set (keys M)"
  using m
proof (induction rule: subtree_induct)
  case self
  then show ?case by (rule k)
next
  case (child u c)
  from wf_children(1) [OF wf child.IH child.hyps(2)] show ?case .
qed

lemma subtree_level:
  assumes wf: "wfMap M" and k: "k \<in> set (keys M)" and m: "m \<in> subtree M k"
  shows "m = k \<or> level (heap M k) < level (heap M m)"
  using m
proof (induction rule: subtree_induct)
  case self
  then show ?case by simp
next
  case (child u c)
  from subtree_keys [OF wf k child.hyps(1)] have "u \<in> set (keys M)" .
  from wf_children(4) [OF wf this child.hyps(2)] child.IH show ?case by auto
qed

lemma subtree_last_step:
  assumes "c \<in> subtree M b"
  shows "c = b \<or> (\<exists>u. u \<in> subtree M b \<and> c \<in> set (children (heap M u)))"
proof -
  from assms have "(b, c) \<in> (childRel M)\<^sup>*" by (simp add: subtree_def)
  then show ?thesis
    by (cases rule: rtranclE) (auto simp: subtree_def childRel_def)
qed

lemma subtree_same_level:
  assumes wf: "wfMap M" and a: "a \<in> set (keys M)" and b: "b \<in> set (keys M)"
    and lv: "level (heap M a) = level (heap M b)"
    and m: "m \<in> subtree M a" and m': "m \<in> subtree M b"
  shows "a = b"
  using m m'
proof (induction rule: subtree_induct)
  case self
  from subtree_level [OF wf b self.prems] lv show ?case by auto
next
  case (child u c)
  from subtree_keys [OF wf a child.hyps(1)] have u: "u \<in> set (keys M)" .
  have ca: "c \<in> subtree M a" using subtree_step [OF child.hyps(1,2)] .
  from subtree_last_step [OF child.prems] show ?case
  proof
    assume "c = b"
    with subtree_level [OF wf a ca] lv show ?thesis by auto
  next
    assume "\<exists>u'. u' \<in> subtree M b \<and> c \<in> set (children (heap M u'))"
    then obtain u' where u': "u' \<in> subtree M b" "c \<in> set (children (heap M u'))" by blast
    from subtree_keys [OF wf b u'(1)] have "u' \<in> set (keys M)" .
    from wf_children(3) [OF wf this u'(2)] wf_children(3) [OF wf u child.hyps(2)]
    have "u' = u" by simp
    with u'(1) child.IH show ?thesis by simp
  qed
qed

lemma subtree_siblings_disjoint:
  assumes wf: "wfMap M" and k: "k \<in> set (keys M)"
    and a: "a \<in> set (children (heap M k))" and b: "b \<in> set (children (heap M k))"
    and ne: "a \<noteq> b"
  shows "subtree M a \<inter> subtree M b = {}"
proof -
  have "level (heap M a) = level (heap M b)"
    using wf_children(4) [OF wf k a] wf_children(4) [OF wf k b] by simp
  with subtree_same_level [OF wf wf_children(1) [OF wf k a] wf_children(1) [OF wf k b]] ne
  show ?thesis by auto
qed

lemma subtree_parent_outside:
  assumes wf: "wfMap M" and k: "k \<in> set (keys M)" and c: "c \<in> set (children (heap M k))"
  shows "k \<notin> subtree M c"
proof
  assume "k \<in> subtree M c"
  from subtree_level [OF wf wf_children(1) [OF wf k c] this] wf_children(4) [OF wf k c]
  show False by auto
qed

lemma key_under_root:
  assumes wf: "wfMap M"
  shows "m \<in> set (keys M) \<Longrightarrow> \<exists>r\<in>set (rootsOf M). m \<in> subtree M r"
proof (induction "level (heap M m)" arbitrary: m)
  case 0
  then have "m \<in> set (rootsOf M)" by (simp add: rootsOf_def)
  then show ?case by (intro bexI [of _ m]) simp_all
next
  case (Suc n)
  from wf Suc.prems have "nodeOK M m" by (simp add: wfMap_def nodesOK_def)
  with Suc(2) have d: "0 < depth m" by (simp add: nodeOK_def)
  with wf Suc.prems have p: "dirname m \<in> set (keys M)"
    and c: "m \<in> set (children (heap M (dirname m)))"
    by (simp_all add: wfMap_def linkedOn_def)
  from wf_children(4) [OF wf p c] Suc(2) have "n = level (heap M (dirname m))" by simp
  from Suc(1) [OF this p] obtain r where "r \<in> set (rootsOf M)" "dirname m \<in> subtree M r"
    by blast
  with subtree_step [OF _ c] show ?case by blast
qed

subsection \<open>Placement: pure facts about the postconditions\<close>

lemma samePlan_refl [simp]: "samePlan M M"
  by (simp add: samePlan_def)

lemma samePlan_trans: "samePlan M M' \<Longrightarrow> samePlan M' M'' \<Longrightarrow> samePlan M M''"
  by (auto simp: samePlan_def intro: sameShape_trans)

lemma samePlanD:
  assumes "samePlan M M'"
  shows "sameShape M M'" and "seqOf M' k = seqOf M k" and "keys M' = keys M"
    and "children (heap M' k) = children (heap M k)" and "level (heap M' k) = level (heap M k)"
    and "seq (heap M' k) = seqOf M k"
  using assms sameShapeD [of M M'] by (simp_all add: samePlan_def seqOf_def)

lemma rowOffset_nonneg: "0 \<le> rowOffset M k"
  by (simp add: rowOffset_def)

lemma rowOffset_cases: "rowOffset M k = (if seqOf M k = 0 then 0 else 48)"
  by (cases "seqOf M k") (simp_all add: rowOffset_def)

lemma nodeLaid_frame:
  assumes "nodeLaid M0 lo M m" and "\<forall>u\<in>subtree M0 m. heap M' u = heap M u"
  shows "nodeLaid M0 lo M' m"
proof -
  have y: "yOf M' u = yOf M u" and x: "xOf M' u = xOf M u" if "u \<in> subtree M0 m" for u
    using assms(2) that by (simp_all add: yOf_def xOf_def)
  have c: "c \<in> subtree M0 m" if "c \<in> set (children (heap M0 m))" for c
    using subtree_step [OF subtree_self that] .
  have ab: "above M0 M' a b" if "above M0 M a b"
    and "a \<in> set (children (heap M0 m))" "b \<in> set (children (heap M0 m))" for a b
    unfolding above_def
  proof (intro ballI)
    fix u v assume u: "u \<in> subtree M0 a" and v: "v \<in> subtree M0 b"
    have "u \<in> subtree M0 m" "v \<in> subtree M0 m"
      using subtree_child [OF that(2) u] subtree_child [OF that(3) v] by simp_all
    then show "yOf M' u < yOf M' v"
      using that(1) u v by (simp add: above_def y)
  qed
  show ?thesis
    using assms(1) ab unfolding nodeLaid_def
    by (simp add: y x c)
qed

lemma rowLaid_Nil: "samePlan M0 M \<Longrightarrow> rowLaid M0 lo [] y0 l M l M"
  by (simp add: rowLaid_def)

lemma treeLaidD:
  assumes "treeLaid M0 lo k baseY M l M'"
  shows "samePlan M0 M'"
    and "\<And>m. m \<notin> subtree M0 k \<Longrightarrow> heap M' m = heap M m"
    and "yOf M' k = baseY + rowOffset M0 k"
    and "l \<in> subtree M0 k"
    and "\<And>m. m \<in> subtree M0 k \<Longrightarrow> yOf M' k \<le> yOf M' m"
    and "\<And>m. m \<in> subtree M0 k \<Longrightarrow> yOf M' m \<le> yOf M' l"
    and "\<And>m. m \<in> subtree M0 k \<Longrightarrow> nodeLaid M0 lo M' m"
  using assms unfolding treeLaid_def by blast+

lemma rowLaidD:
  assumes "rowLaid M0 lo cs y0 l M l' M'"
  shows "samePlan M0 M'"
    and "\<And>m. m \<notin> (\<Union>c\<in>set cs. subtree M0 c) \<Longrightarrow> heap M' m = heap M m"
    and "cs = [] \<Longrightarrow> l' = l"
    and "cs \<noteq> [] \<Longrightarrow> l' \<in> subtree M0 (last cs)"
    and "cs \<noteq> [] \<Longrightarrow> yOf M' (hd cs) = y0 + rowOffset M0 (hd cs)"
    and "y0 \<le> yOf M l \<Longrightarrow> y0 \<le> yOf M' l'"
    and "\<And>c m. c \<in> set cs \<Longrightarrow> m \<in> subtree M0 c \<Longrightarrow> y0 + rowOffset M0 (hd cs) \<le> yOf M' m"
    and "\<And>c m. c \<in> set cs \<Longrightarrow> m \<in> subtree M0 c \<Longrightarrow> yOf M' m \<le> yOf M' l'"
    and "\<And>c m. c \<in> set cs \<Longrightarrow> m \<in> subtree M0 c \<Longrightarrow> nodeLaid M0 lo M' m"
    and "sorted_wrt (above M0 M') cs"
  using assms unfolding rowLaid_def by blast+

lemma rowLaid_Cons:
  assumes t: "treeLaid M0 lo c y0 M l1 M1"
    and r: "rowLaid M0 lo rest (yOf M1 l1) l1 M1 l' M'"
    and dis: "\<forall>b\<in>set rest. subtree M0 c \<inter> subtree M0 b = {}"
    and pos: "\<forall>b\<in>set rest. 0 < seqOf M0 b"
  shows "rowLaid M0 lo (c # rest) y0 l M l' M'"
proof -
  note T = treeLaidD [OF t] and R = rowLaidD [OF r]
  have keep: "heap M' m = heap M1 m" if "m \<in> subtree M0 c" for m
  proof (rule R(2))
    show "m \<notin> (\<Union>c\<in>set rest. subtree M0 c)" using dis that by auto
  qed
  have ykeep: "yOf M' m = yOf M1 m" if "m \<in> subtree M0 c" for m
    using keep [OF that] by (simp add: yOf_def)
  have l1l': "yOf M1 l1 \<le> yOf M' l'" using R(6) by simp
  have c_top: "yOf M1 c = y0 + rowOffset M0 c" using T(3) .
  have c_le_l1: "yOf M1 c \<le> yOf M1 l1" using T(6) [of c] by simp
  have p1: "samePlan M0 M'" using R(1) .
  have p2: "\<forall>m. m \<notin> (\<Union>c\<in>set (c # rest). subtree M0 c) \<longrightarrow> heap M' m = heap M m"
  proof (intro allI impI)
    fix m assume m: "m \<notin> (\<Union>c\<in>set (c # rest). subtree M0 c)"
    then have "m \<notin> subtree M0 c" and "m \<notin> (\<Union>c\<in>set rest. subtree M0 c)" by simp_all
    then show "heap M' m = heap M m" using T(2) [of m] R(2) [of m] by simp
  qed
  have p3: "l' \<in> subtree M0 (last (c # rest))"
  proof (cases "rest = []")
    case True
    with R(3) T(4) show ?thesis by simp
  next
    case False
    with R(4) show ?thesis by simp
  qed
  have p4: "yOf M' (hd (c # rest)) = y0 + rowOffset M0 (hd (c # rest))"
    using ykeep [of c] c_top by simp
  have p5: "y0 \<le> yOf M' l'"
    using c_top c_le_l1 l1l' rowOffset_nonneg [of M0 c] by linarith
  have low_c: "y0 + rowOffset M0 c \<le> yOf M' m" if "m \<in> subtree M0 c" for m
    using T(5) [OF that] ykeep [OF that] c_top by simp
  have up_c: "yOf M' m \<le> yOf M1 l1" if "m \<in> subtree M0 c" for m
    using T(6) [OF that] ykeep [OF that] by simp
  have laid_c: "nodeLaid M0 lo M' m" if m: "m \<in> subtree M0 c" for m
  proof (rule nodeLaid_frame [OF T(7) [OF m]])
    show "\<forall>u\<in>subtree M0 m. heap M' u = heap M1 u"
      using keep subtree_trans [OF m] by blast
  qed
  have low_r: "yOf M1 l1 + rowOffset M0 (hd rest) \<le> yOf M' m"
    and up_r: "yOf M' m \<le> yOf M' l'" and laid_r: "nodeLaid M0 lo M' m"
    if "b \<in> set rest" "m \<in> subtree M0 b" for b m
    using R(7) [OF that] R(8) [OF that] R(9) [OF that] by simp_all
  have p6: "\<forall>d\<in>set (c # rest). \<forall>m\<in>subtree M0 d.
      y0 + rowOffset M0 (hd (c # rest)) \<le> yOf M' m \<and> yOf M' m \<le> yOf M' l' \<and> nodeLaid M0 lo M' m"
  proof (intro ballI)
    fix d m assume d: "d \<in> set (c # rest)" and m: "m \<in> subtree M0 d"
    show "y0 + rowOffset M0 (hd (c # rest)) \<le> yOf M' m \<and> yOf M' m \<le> yOf M' l' \<and> nodeLaid M0 lo M' m"
    proof (cases "d = c")
      case True
      with m have mc: "m \<in> subtree M0 c" by simp
      show ?thesis using low_c [OF mc] up_c [OF mc] laid_c [OF mc] l1l' by simp
    next
      case False
      with d have dr: "d \<in> set rest" by simp
      have "y0 + rowOffset M0 c \<le> yOf M1 l1 + rowOffset M0 (hd rest)"
        using c_top c_le_l1 rowOffset_nonneg [of M0 "hd rest"] by linarith
      with low_r [OF dr m] up_r [OF dr m] laid_r [OF dr m] show ?thesis by simp
    qed
  qed
  have p7: "sorted_wrt (above M0 M') (c # rest)"
  proof -
    have "above M0 M' c b" if b: "b \<in> set rest" for b
      unfolding above_def
    proof (intro ballI)
      fix u v assume u: "u \<in> subtree M0 c" and v: "v \<in> subtree M0 b"
      from b have "hd rest \<in> set rest" by (cases rest) auto
      with pos have "rowOffset M0 (hd rest) = 48" by (simp add: rowOffset_cases)
      with low_r [OF b v] up_c [OF u] show "yOf M' u < yOf M' v" by linarith
    qed
    with R(10) show ?thesis by simp
  qed
  show ?thesis
    unfolding rowLaid_def using p1 p2 p3 p4 p5 p6 p7 by simp
qed

subsection \<open>Placement: the code\<close>

lemma place_other: "m \<noteq> k \<Longrightarrow> heap (place lo k b M) m = heap M m"
  by (simp add: place_def)

lemma place_samePlan:
  assumes "samePlan M0 M"
  shows "samePlan M0 (place lo k b M)"
proof -
  have "shape (heap (place lo k b M) m) = shape (heap M m)" for m
    by (simp add: place_def shape_def)
  moreover have "seqOf (place lo k b M) m = seqOf M m" for m
    by (simp add: place_def seqOf_def)
  moreover have "keys (place lo k b M) = keys M" by (simp add: place_def)
  ultimately show ?thesis
    using assms by (simp add: samePlan_def sameShape_def)
qed

lemma place_pos:
  "yOf (place lo k b M) k = b + rowOffset M k"
  "xOf (place lo k b M) k = lo ! level (heap M k)"
  by (simp_all add: place_def yOf_def xOf_def rowOffset_def seqOf_def)

lemma eachChild_laid:
  assumes pa: "placesAt M0 lo fuel"
  shows "samePlan M0 M \<Longrightarrow> distinct cs \<Longrightarrow>
     \<forall>c\<in>set cs. c \<in> set (keys M0) \<and> length lo \<le> fuel + level (heap M0 c) \<Longrightarrow>
     \<forall>a\<in>set cs. \<forall>b\<in>set cs. a \<noteq> b \<longrightarrow> subtree M0 a \<inter> subtree M0 b = {} \<Longrightarrow>
     \<forall>c\<in>set (tl cs). 0 < seqOf M0 c \<Longrightarrow>
     \<exists>l' M'. eachChild fuel lo cs (l, M) = Inr (l', M') \<and> rowLaid M0 lo cs (yOf M l) l M l' M'"
proof (induction cs arbitrary: l M)
  case Nil
  then show ?case by (simp add: rowLaid_Nil)
next
  case (Cons c rest)
  from Cons.prems(3) have ck: "c \<in> set (keys M0)" and cf: "length lo \<le> fuel + level (heap M0 c)"
    by simp_all
  from pa Cons.prems(1) ck cf obtain l1 M1 where
    s: "setFilePos fuel lo c (yOf M l) M = Inr (l1, M1)"
    and t: "treeLaid M0 lo c (yOf M l) M l1 M1"
    unfolding placesAt_def by blast
  have sp1: "samePlan M0 M1" using treeLaidD(1) [OF t] .
  have d: "distinct rest" using Cons.prems(2) by simp
  have k: "\<forall>c\<in>set rest. c \<in> set (keys M0) \<and> length lo \<le> fuel + level (heap M0 c)"
    using Cons.prems(3) by simp
  have dj: "\<forall>a\<in>set rest. \<forall>b\<in>set rest. a \<noteq> b \<longrightarrow> subtree M0 a \<inter> subtree M0 b = {}"
    using Cons.prems(4) by simp
  have pos: "\<forall>b\<in>set rest. 0 < seqOf M0 b" using Cons.prems(5) by simp
  then have pos': "\<forall>c\<in>set (tl rest). 0 < seqOf M0 c"
    by (cases rest) simp_all
  from Cons.IH [OF sp1 d k dj pos', of l1] obtain l' M' where
    e: "eachChild fuel lo rest (l1, M1) = Inr (l', M')"
    and r: "rowLaid M0 lo rest (yOf M1 l1) l1 M1 l' M'"
    by blast
  have dis: "\<forall>b\<in>set rest. subtree M0 c \<inter> subtree M0 b = {}"
    using Cons.prems(2,4) by auto
  have "eachChild fuel lo (c # rest) (l, M) = Inr (l', M')"
    using s e by (simp add: yOf_def)
  moreover have "rowLaid M0 lo (c # rest) (yOf M l) l M l' M'"
    using rowLaid_Cons [OF t r dis pos] .
  ultimately show ?case by blast
qed

subsection \<open>The order in which siblings are placed\<close>

lemma sorted_wrt_pick:
  assumes "sorted_wrt P L" and "sorted_wrt (\<lambda>a b. f a < (f b :: nat)) L"
    and "a \<in> set L" and "b \<in> set L" and "f a < f b"
  shows "P a b"
proof -
  from assms(3,4) obtain i j where i: "i < length L" "L ! i = a" and j: "j < length L" "L ! j = b"
    by (auto simp: in_set_conv_nth)
  consider "i < j" | "i = j" | "j < i" by linarith
  then show ?thesis
  proof cases
    case 1
    from sorted_wrt_nth_less [OF assms(1) 1 j(1)] i j show ?thesis by simp
  next
    case 2
    with i j assms(5) show ?thesis by simp
  next
    case 3
    from sorted_wrt_nth_less [OF assms(2) 3 i(1)] i j assms(5) show ?thesis by simp
  qed
qed

lemma ranked_order:
  fixes f :: "'a \<Rightarrow> nat"
  assumes m: "map f xs = [0..<length xs]" and s: "set ys = set xs" and d: "distinct ys"
  shows "sorted_wrt (\<lambda>a b. f a < f b) (toSorted (\<lambda>a b. real (f a) - real (f b)) ys)"
    and "\<forall>c\<in>set (tl (toSorted (\<lambda>a b. real (f a) - real (f b)) ys)). 0 < f c"
    and "c \<in> set xs \<Longrightarrow> f c = 0 \<Longrightarrow> hd (toSorted (\<lambda>a b. real (f a) - real (f b)) ys) = c"
proof -
  let ?L = "toSorted (\<lambda>a b. real (f a) - real (f b)) ys"
  have le: "sorted_wrt (\<lambda>a b. real (f a) - real (f b) \<le> 0) ?L"
  proof (rule sorted_toSorted_total)
    show "\<forall>a b. 0 < real (f a) - real (f b) \<longrightarrow> real (f b) - real (f a) \<le> 0"
      by (intro allI impI) linarith
    show "\<forall>a b c. real (f a) - real (f b) \<le> 0 \<longrightarrow> real (f b) - real (f c) \<le> 0 \<longrightarrow>
        real (f a) - real (f c) \<le> 0"
      by (intro allI impI) linarith
  qed
  have inj: "a = b" if "a \<in> set xs" "b \<in> set xs" "f a = f b" for a b
  proof -
    have "a = xs ! f a" using nth_of_rank(2) [OF m that(1)] by (rule sym)
    also have "\<dots> = xs ! f b" by (simp only: that(3))
    also have "\<dots> = b" using nth_of_rank(2) [OF m that(2)] .
    finally show ?thesis .
  qed
  have dL: "distinct ?L" and sL: "set ?L = set xs" using d s by simp_all
  show st: "sorted_wrt (\<lambda>a b. f a < f b) ?L"
    unfolding sorted_wrt_iff_nth_less
  proof (intro allI impI)
    fix i j assume ij: "i < j" and j: "j < length ?L"
    then have i: "i < length ?L" by simp
    from sorted_wrt_nth_less [OF le ij j] have "f (?L ! i) \<le> f (?L ! j)" by simp
    moreover have "?L ! i \<noteq> ?L ! j"
      using dL ij i j by (simp add: nth_eq_iff_index_eq)
    then have "f (?L ! i) \<noteq> f (?L ! j)"
      using inj [of "?L ! i" "?L ! j"] sL i j by (metis nth_mem)
    ultimately show "f (?L ! i) < f (?L ! j)" by simp
  qed
  show tl: "\<forall>c\<in>set (tl ?L). 0 < f c"
  proof (cases ?L)
    case Nil
    then show ?thesis by simp
  next
    case (Cons h t)
    with st have "\<forall>c\<in>set t. f h < f c" by simp
    with Cons show ?thesis by auto
  qed
  show "hd ?L = c" if c: "c \<in> set xs" and z: "f c = 0"
  proof (cases ?L)
    case Nil
    with sL c show ?thesis by simp
  next
    case (Cons h t)
    with tl z have "c \<notin> set t" by auto
    moreover from sL c Cons have "c \<in> set (h # t)" by simp
    ultimately show ?thesis using Cons by simp
  qed
qed

lemma kidsOrder_facts:
  assumes wf: "wfMap M0" and ok: "seqOK M0" and k: "k \<in> set (keys M0)"
  shows "set (kidsOrder M0 k) = set (children (heap M0 k))"
    and "distinct (kidsOrder M0 k)"
    and "sorted_wrt (\<lambda>a b. seqOf M0 a < seqOf M0 b) (kidsOrder M0 k)"
    and "\<forall>c\<in>set (tl (kidsOrder M0 k)). 0 < seqOf M0 c"
    and "c \<in> set (children (heap M0 k)) \<Longrightarrow> seqOf M0 c = 0 \<Longrightarrow> hd (kidsOrder M0 k) = c"
proof -
  let ?xs = "sortedChildren M0 k"
  have m: "map (seqOf M0) ?xs = [0..<length ?xs]"
    using ok k by (simp add: seqOK_def sortedChildren_def)
  have s: "set (children (heap M0 k)) = set ?xs" by (simp add: sortedChildren_def)
  have d: "distinct (children (heap M0 k))" using wf_distinct_children [OF wf k] .
  show "set (kidsOrder M0 k) = set (children (heap M0 k))"
    and "distinct (kidsOrder M0 k)"
    using d by (simp_all add: kidsOrder_def)
  show "sorted_wrt (\<lambda>a b. seqOf M0 a < seqOf M0 b) (kidsOrder M0 k)"
    and "\<forall>c\<in>set (tl (kidsOrder M0 k)). 0 < seqOf M0 c"
    unfolding kidsOrder_def using ranked_order(1,2) [OF m s d] by simp_all
  show "hd (kidsOrder M0 k) = c" if "c \<in> set (children (heap M0 k))" "seqOf M0 c = 0"
    unfolding kidsOrder_def using ranked_order(3) [OF m s d, of c] that s by simp
qed

lemma setFilePos_Suc:
  assumes sp: "samePlan M0 M" and lv: "level (heap M0 k) < length lo"
  shows "setFilePos (Suc fuel) lo k baseY M =
           eachChild fuel lo (kidsOrder M0 k) (k, place lo k baseY M)"
proof -
  let ?M1 = "place lo k baseY M"
  have sp1: "samePlan M0 ?M1" using place_samePlan [OF sp] .
  have "(\<lambda>a b. real (seq (heap ?M1 a)) - real (seq (heap ?M1 b))) =
      (\<lambda>a b. real (seqOf M0 a) - real (seqOf M0 b))"
    by (simp add: samePlanD(6) [OF sp1])
  then have "toSorted (\<lambda>a b. real (seq (heap ?M1 a)) - real (seq (heap ?M1 b)))
      (children (heap ?M1 k)) = kidsOrder M0 k"
    by (simp add: kidsOrder_def samePlanD(4) [OF sp1])
  then show ?thesis
    using lv by (simp add: samePlanD(5) [OF sp] Let_def)
qed

lemma rowOffset_samePlan: "samePlan M0 M \<Longrightarrow> rowOffset M k = rowOffset M0 k"
  by (simp add: rowOffset_def samePlanD(2))

lemma treeLaid_step:
  assumes wf: "wfMap M0" and ok: "seqOK M0" and k: "k \<in> set (keys M0)"
    and sp: "samePlan M0 M"
    and r: "rowLaid M0 lo (kidsOrder M0 k) (yOf (place lo k baseY M) k) k (place lo k baseY M) l' M'"
  shows "treeLaid M0 lo k baseY M l' M'"
proof -
  let ?M1 = "place lo k baseY M"
  let ?L = "kidsOrder M0 k"
  let ?y0 = "yOf ?M1 k"
  note R = rowLaidD [OF r] and K = kidsOrder_facts [OF wf ok k]
  have kid: "c \<in> set ?L \<longleftrightarrow> c \<in> set (children (heap M0 k))" for c
    using K(1) by simp
  have k_out: "k \<notin> (\<Union>c\<in>set ?L. subtree M0 c)"
    using subtree_parent_outside [OF wf k] kid by auto
  have hk: "heap M' k = heap ?M1 k" using R(2) [OF k_out] .
  have y0: "?y0 = baseY + rowOffset M0 k"
    using place_pos(1) [of lo k baseY M] rowOffset_samePlan [OF sp] by simp
  have yk: "yOf M' k = baseY + rowOffset M0 k"
    using hk y0 by (simp add: yOf_def)
  have yk0: "yOf M' k = ?y0" using hk by (simp add: yOf_def)
  have xk: "xOf M' k = lo ! level (heap M0 k)"
    using hk place_pos(2) [of lo k baseY M] samePlanD(5) [OF sp] by (simp add: xOf_def)
  have p2: "\<forall>m. m \<notin> subtree M0 k \<longrightarrow> heap M' m = heap M m"
  proof (intro allI impI)
    fix m assume m: "m \<notin> subtree M0 k"
    then have "m \<noteq> k" by auto
    moreover have "m \<notin> (\<Union>c\<in>set ?L. subtree M0 c)"
      using m subtree_child [of _ M0 k m] kid by auto
    ultimately show "heap M' m = heap M m"
      using R(2) [of m] place_other [of m k lo baseY M] by simp
  qed
  have p4: "l' \<in> subtree M0 k"
  proof (cases "?L = []")
    case True
    with R(3) show ?thesis by simp
  next
    case False
    then have "last ?L \<in> set (children (heap M0 k))" using kid [of "last ?L"] by simp
    from subtree_child [OF this R(4) [OF False]] show ?thesis .
  qed
  have top: "?y0 \<le> yOf M' l'" using R(6) by simp
  have low: "?y0 \<le> yOf M' m" if "c \<in> set ?L" "m \<in> subtree M0 c" for c m
    using R(7) [OF that] rowOffset_nonneg [of M0 "hd ?L"] by linarith
  have laid_k: "nodeLaid M0 lo M' k"
    unfolding nodeLaid_def
  proof (intro conjI ballI impI)
    show "xOf M' k = lo ! level (heap M0 k)" by (rule xk)
  next
    fix c assume c: "c \<in> set (children (heap M0 k))"
    then have cL: "c \<in> set ?L" using kid by simp
    show "yOf M' k \<le> yOf M' c" using low [OF cL subtree_self] yk0 by simp
  next
    fix c assume c: "c \<in> set (children (heap M0 k))" and z: "seqOf M0 c = 0"
    then have ne: "?L \<noteq> []" using kid [of c] by auto
    have "hd ?L = c" using K(5) [OF c z] .
    with R(5) [OF ne] z show "yOf M' c = yOf M' k"
      by (simp add: rowOffset_cases yk0)
  next
    fix a b assume a: "a \<in> set (children (heap M0 k))" and b: "b \<in> set (children (heap M0 k))"
      and lt: "seqOf M0 a < seqOf M0 b"
    show "above M0 M' a b"
      using sorted_wrt_pick [OF R(10) K(3) _ _ lt] a b kid by simp
  qed
  have p5: "\<forall>m\<in>subtree M0 k. yOf M' k \<le> yOf M' m \<and> yOf M' m \<le> yOf M' l' \<and> nodeLaid M0 lo M' m"
  proof
    fix m assume "m \<in> subtree M0 k"
    from subtree_cases [OF this]
    show "yOf M' k \<le> yOf M' m \<and> yOf M' m \<le> yOf M' l' \<and> nodeLaid M0 lo M' m"
    proof
      assume "m = k"
      with top yk0 laid_k show ?thesis by simp
    next
      assume "\<exists>c\<in>set (children (heap M0 k)). m \<in> subtree M0 c"
      then obtain c where c: "c \<in> set ?L" and m: "m \<in> subtree M0 c" using kid by auto
      from low [OF c m] R(8) [OF c m] R(9) [OF c m] yk0 show ?thesis by simp
    qed
  qed
  show ?thesis
    unfolding treeLaid_def using R(1) p2 yk p4 p5 by simp
qed

lemma placesAt_all:
  assumes ctx: "layoutCtx M0 lo"
  shows "placesAt M0 lo fuel"
proof (induction fuel)
  case 0
  from ctx show ?case unfolding placesAt_def layoutCtx_def by fastforce
next
  case (Suc fuel)
  from ctx have wf: "wfMap M0" and ok: "seqOK M0"
    and lv: "\<And>k. k \<in> set (keys M0) \<Longrightarrow> level (heap M0 k) < length lo"
    by (simp_all add: layoutCtx_def)
  show ?case
    unfolding placesAt_def
  proof (intro allI impI)
    fix k baseY M
    assume sp: "samePlan M0 M" and k: "k \<in> set (keys M0)"
      and f: "length lo \<le> Suc fuel + level (heap M0 k)"
    let ?M1 = "place lo k baseY M"
    let ?L = "kidsOrder M0 k"
    note K = kidsOrder_facts [OF wf ok k]
    have sp1: "samePlan M0 ?M1" using place_samePlan [OF sp] .
    have ks: "\<forall>c\<in>set ?L. c \<in> set (keys M0) \<and> length lo \<le> fuel + level (heap M0 c)"
    proof
      fix c assume "c \<in> set ?L"
      then have c: "c \<in> set (children (heap M0 k))" using K(1) by simp
      from wf_children(1,4) [OF wf k c] f
      show "c \<in> set (keys M0) \<and> length lo \<le> fuel + level (heap M0 c)" by simp
    qed
    have dj: "\<forall>a\<in>set ?L. \<forall>b\<in>set ?L. a \<noteq> b \<longrightarrow> subtree M0 a \<inter> subtree M0 b = {}"
      using subtree_siblings_disjoint [OF wf k] K(1) by simp
    from eachChild_laid [OF Suc sp1 K(2) ks dj K(4), of k] obtain l' M' where
      e: "eachChild fuel lo ?L (k, ?M1) = Inr (l', M')"
      and r: "rowLaid M0 lo ?L (yOf ?M1 k) k ?M1 l' M'"
      by blast
    have "setFilePos (Suc fuel) lo k baseY M = Inr (l', M')"
      using setFilePos_Suc [OF sp lv [OF k]] e by simp
    moreover have "treeLaid M0 lo k baseY M l' M'"
      using treeLaid_step [OF wf ok k sp r] .
    ultimately show "\<exists>l M'. setFilePos (Suc fuel) lo k baseY M = Inr (l, M') \<and>
        treeLaid M0 lo k baseY M l M'"
      by blast
  qed
qed

subsection \<open>The loop over the roots\<close>

lemma eachRoot_Some:
  "eachRoot fuel lo cs (Some l, M) =
     (case eachChild fuel lo cs (l, M) of Inl e \<Rightarrow> Inl e | Inr (l', M') \<Rightarrow> Inr (Some l', M'))"
proof (induction cs arbitrary: l M)
  case Nil
  then show ?case by simp
next
  case (Cons c cs)
  then show ?case by (simp split: sum.splits prod.splits)
qed

lemma rootFiles_eq:
  "rootFiles M = toSorted (\<lambda>a b. real (seqOf M a) - real (seqOf M b)) (rootsOf M)"
  by (simp add: rootFiles_def rootsOf_def seqOf_def)

lemma rootFiles_facts:
  assumes wf: "wfMap M0" and ok: "seqOK M0"
  shows "set (rootFiles M0) = set (rootsOf M0)"
    and "distinct (rootFiles M0)"
    and "sorted_wrt (\<lambda>a b. seqOf M0 a < seqOf M0 b) (rootFiles M0)"
    and "\<forall>c\<in>set (tl (rootFiles M0)). 0 < seqOf M0 c"
    and "rootFiles M0 \<noteq> [] \<Longrightarrow> seqOf M0 (hd (rootFiles M0)) = 0"
proof -
  have m: "map (seqOf M0) (rootsOf M0) = [0..<length (rootsOf M0)]"
    using ok by (simp add: seqOK_def)
  have d: "distinct (rootsOf M0)"
    using wf by (simp add: rootsOf_def wfMap_def nodesOK_def)
  show s: "set (rootFiles M0) = set (rootsOf M0)" and "distinct (rootFiles M0)"
    using d by (simp_all add: rootFiles_eq)
  show "sorted_wrt (\<lambda>a b. seqOf M0 a < seqOf M0 b) (rootFiles M0)"
    and "\<forall>c\<in>set (tl (rootFiles M0)). 0 < seqOf M0 c"
    unfolding rootFiles_eq using ranked_order(1,2) [OF m refl d] by simp_all
  show "seqOf M0 (hd (rootFiles M0)) = 0" if ne: "rootFiles M0 \<noteq> []"
  proof -
    from ne s have "rootsOf M0 \<noteq> []" by auto
    then have z: "0 < length (rootsOf M0)" by simp
    have "seqOf M0 (rootsOf M0 ! 0) = 0"
      using arg_cong [OF m, of "\<lambda>xs. xs ! 0"] z by simp
    moreover have "rootsOf M0 ! 0 \<in> set (rootsOf M0)" using z by simp
    ultimately show ?thesis
      using ranked_order(3) [OF m refl d, of "rootsOf M0 ! 0"] by (simp add: rootFiles_eq)
  qed
qed

lemma roots_laid:
  assumes ctx: "layoutCtx M0 lo"
  shows "\<exists>lr M' l l'. eachRoot (length lo) lo (rootFiles M0) (None, M0) = Inr (lr, M') \<and>
           rowLaid M0 lo (rootFiles M0) 0 l M0 l' M'"
proof (cases "rootFiles M0")
  case Nil
  then show ?thesis using rowLaid_Nil [of M0 M0 lo 0] by auto
next
  case (Cons r rest)
  from ctx have wf: "wfMap M0" and ok: "seqOK M0"
    and lv: "\<And>k. k \<in> set (keys M0) \<Longrightarrow> level (heap M0 k) < length lo"
    by (simp_all add: layoutCtx_def)
  note F = rootFiles_facts [OF wf ok]
  have root: "c \<in> set (keys M0) \<and> level (heap M0 c) = 0" if "c \<in> set (rootFiles M0)" for c
    using that F(1) by (simp add: rootsOf_def)
  have pa: "placesAt M0 lo (length lo)" using placesAt_all [OF ctx] .
  have r: "r \<in> set (keys M0)" "level (heap M0 r) = 0" using root [of r] Cons by simp_all
  from pa r obtain l1 M1 where
    s: "setFilePos (length lo) lo r 0 M0 = Inr (l1, M1)"
    and t: "treeLaid M0 lo r 0 M0 l1 M1"
    unfolding placesAt_def by (metis le_add1 samePlan_refl)
  have sp1: "samePlan M0 M1" using treeLaidD(1) [OF t] .
  have d: "distinct rest" and rn: "r \<notin> set rest" using F(2) Cons by simp_all
  have ks: "\<forall>c\<in>set rest. c \<in> set (keys M0) \<and> length lo \<le> length lo + level (heap M0 c)"
    using root Cons by simp
  have disj: "subtree M0 a \<inter> subtree M0 b = {}"
    if "a \<in> set (rootFiles M0)" "b \<in> set (rootFiles M0)" "a \<noteq> b" for a b
  proof -
    have "a \<in> set (keys M0)" "b \<in> set (keys M0)" "level (heap M0 a) = level (heap M0 b)"
      using root [OF that(1)] root [OF that(2)] by simp_all
    with subtree_same_level [OF wf] that(3) show ?thesis by blast
  qed
  have dj: "\<forall>a\<in>set rest. \<forall>b\<in>set rest. a \<noteq> b \<longrightarrow> subtree M0 a \<inter> subtree M0 b = {}"
    using disj Cons by simp
  have pos: "\<forall>b\<in>set rest. 0 < seqOf M0 b" using F(4) Cons by simp
  then have pos': "\<forall>c\<in>set (tl rest). 0 < seqOf M0 c" by (cases rest) simp_all
  from eachChild_laid [OF pa sp1 d ks dj pos', of l1] obtain l' M' where
    e: "eachChild (length lo) lo rest (l1, M1) = Inr (l', M')"
    and rl: "rowLaid M0 lo rest (yOf M1 l1) l1 M1 l' M'"
    by blast
  have dis: "\<forall>b\<in>set rest. subtree M0 r \<inter> subtree M0 b = {}"
    using disj [of r] rn Cons by auto
  have "eachRoot (length lo) lo (rootFiles M0) (None, M0) = Inr (Some l', M')"
    using Cons s e by (simp add: eachRoot_Some)
  moreover have "rowLaid M0 lo (rootFiles M0) 0 l1 M0 l' M'"
    unfolding Cons using rowLaid_Cons [OF t rl dis pos] .
  ultimately show ?thesis by blast
qed

lemma layout_final:
  assumes ctx: "layoutCtx M0 lo"
  shows "\<exists>lr M'. eachRoot (length lo) lo (rootFiles M0) (None, M0) = Inr (lr, M') \<and>
           samePlan M0 M' \<and>
           (\<forall>m\<in>set (keys M0). nodeLaid M0 lo M' m \<and> 0 \<le> yOf M' m) \<and>
           sorted_wrt (above M0 M') (rootFiles M0) \<and>
           (rootFiles M0 \<noteq> [] \<longrightarrow> yOf M' (hd (rootFiles M0)) = 0)"
proof -
  from ctx have wf: "wfMap M0" and ok: "seqOK M0" by (simp_all add: layoutCtx_def)
  note F = rootFiles_facts [OF wf ok]
  from roots_laid [OF ctx] obtain lr M' l l' where
    e: "eachRoot (length lo) lo (rootFiles M0) (None, M0) = Inr (lr, M')"
    and r: "rowLaid M0 lo (rootFiles M0) 0 l M0 l' M'"
    by blast
  note R = rowLaidD [OF r]
  have "nodeLaid M0 lo M' m \<and> 0 \<le> yOf M' m" if m: "m \<in> set (keys M0)" for m
  proof -
    from key_under_root [OF wf m] F(1) obtain c where
      c: "c \<in> set (rootFiles M0)" and mc: "m \<in> subtree M0 c" by auto
    from R(7) [OF c mc] rowOffset_nonneg [of M0 "hd (rootFiles M0)"] have "0 \<le> yOf M' m"
      by linarith
    with R(9) [OF c mc] show ?thesis by simp
  qed
  moreover have "yOf M' (hd (rootFiles M0)) = 0" if "rootFiles M0 \<noteq> []"
    using R(5) [OF that] F(5) [OF that] by (simp add: rowOffset_cases)
  ultimately show ?thesis using e R(1) R(10) by blast
qed

subsection \<open>Column widths\<close>

lemma arr_get_set: "arr_get (arr_set a i v) d = (if d = i then Some v else arr_get a d)"
  by (auto simp: arr_get_def arr_set_def nth_append)

lemma length_arr_set: "length (arr_set a i v) = max (length a) (Suc i)"
  by (auto simp: arr_set_def)

lemma arr_get_widthStep:
  "arr_get (widthStep m f lo) d =
     (if d = level f then stepCell m f (arr_get lo d) else arr_get lo d)"
  by (simp add: widthStep_def stepCell_def arr_get_set)

lemma length_widthStep: "length (widthStep m f lo) = max (length lo) (Suc (level f))"
proof (cases "falsy (arr_get lo (level f)) \<or> length (children f) > 0")
  case True
  then show ?thesis by (simp add: widthStep_def length_arr_set)
next
  case False
  then have "arr_get lo (level f) \<noteq> None" by (auto simp: falsy_def split: option.splits)
  then have "level f < length lo" by (auto simp: arr_get_def split: if_splits)
  with False show ?thesis by (simp add: widthStep_def)
qed

lemma arr_get_fold_widthStep:
  "arr_get (fold (widthStep m) fs lo) d =
     fold (stepCell m) (filter (\<lambda>f. level f = d) fs) (arr_get lo d)"
  by (induction fs arbitrary: lo) (simp_all add: arr_get_widthStep)

lemma length_fold_widthStep_mono:
  "length lo \<le> length (fold (widthStep m) fs lo)"
proof (induction fs arbitrary: lo)
  case Nil
  then show ?case by simp
next
  case (Cons g fs)
  have "length lo \<le> length (widthStep m g lo)" by (simp add: length_widthStep)
  also have "\<dots> \<le> length (fold (widthStep m) fs (widthStep m g lo))" by (rule Cons.IH)
  finally show ?case by simp
qed

lemma length_fold_widthStep_mem:
  "f \<in> set fs \<Longrightarrow> level f < length (fold (widthStep m) fs lo)"
proof (induction fs arbitrary: lo)
  case Nil
  then show ?case by simp
next
  case (Cons g fs)
  show ?case
  proof (cases "f = g")
    case True
    have "level g < length (widthStep m g lo)" by (simp add: length_widthStep)
    also have "\<dots> \<le> length (fold (widthStep m) fs (widthStep m g lo))"
      by (rule length_fold_widthStep_mono)
    finally show ?thesis using True by simp
  next
    case False
    with Cons.prems have "f \<in> set fs" by simp
    from Cons.IH [OF this] show ?thesis by simp
  qed
qed

lemma length_fold_widthStep_bound:
  "d < length (fold (widthStep m) fs lo) \<Longrightarrow> d < length lo \<or> (\<exists>f\<in>set fs. d \<le> level f)"
proof (induction fs arbitrary: lo)
  case Nil
  then show ?case by simp
next
  case (Cons g fs)
  from Cons.prems have "d < length (fold (widthStep m) fs (widthStep m g lo))" by simp
  from Cons.IH [OF this] show ?case
    by (auto simp: length_widthStep)
qed

lemma stepCell_Some: "stepCell m f c \<noteq> None"
  by (auto simp: stepCell_def falsy_def split: option.splits)

lemma fold_stepCell_Some:
  "c \<noteq> None \<or> gs \<noteq> [] \<Longrightarrow> fold (stepCell m) gs c \<noteq> None"
proof (induction gs arbitrary: c)
  case Nil
  then show ?case by simp
next
  case (Cons g gs)
  have "stepCell m g c \<noteq> None" by (rule stepCell_Some)
  then show ?case using Cons.IH [of "stepCell m g c"] by simp
qed

lemma fold_stepCell_nonneg:
  "(\<forall>v. c = Some v \<longrightarrow> 0 \<le> v) \<Longrightarrow> fold (stepCell m) gs c = Some w \<Longrightarrow> 0 \<le> w"
proof (induction gs arbitrary: c)
  case Nil
  then show ?case by simp
next
  case (Cons g gs)
  have "\<forall>v. stepCell m g c = Some v \<longrightarrow> 0 \<le> v"
    using Cons.prems(1) by (auto simp: stepCell_def or_zero_def falsy_def split: option.splits if_splits)
  from Cons.IH [OF this] Cons.prems(2) show ?case by simp
qed

lemma levelWidths_nonneg:
  assumes "arr_get (levelWidths m M) d = Some w"
  shows "0 \<le> w"
proof -
  have "arr_get [] d = (None :: real option)" by (simp add: arr_get_def)
  with assms show ?thesis
    unfolding levelWidths_def arr_get_fold_widthStep
    using fold_stepCell_nonneg [of None m _ w] by simp
qed





lemma levelWidths_cell:
  "arr_get (levelWidths m M) d =
     fold (stepCell m) (filter (\<lambda>f. level f = d) (toSorted cmpLevel (map (heap M) (keys M)))) None"
proof -
  have "arr_get [] d = (None :: real option)" by (simp add: arr_get_def)
  then show ?thesis
    unfolding levelWidths_def arr_get_fold_widthStep by simp
qed


subsection \<open>The offset table\<close>

lemma prefixSums_upto:
  "j \<le> length w \<Longrightarrow>
   length (fold (\<lambda>i a. a[i := a ! (i - 1) + a ! i]) [1..<j] w) = length w \<and>
   (\<forall>i<j. fold (\<lambda>i a. a[i := a ! (i - 1) + a ! i]) [1..<j] w ! i = sum_list (take (Suc i) w)) \<and>
   (\<forall>i. j \<le> i \<longrightarrow> fold (\<lambda>i a. a[i := a ! (i - 1) + a ! i]) [1..<j] w ! i = w ! i)"
proof (induction j)
  case 0
  then show ?case by simp
next
  case (Suc j)
  let ?f = "\<lambda>i a. a[i := a ! (i - 1) + a ! i]"
  let ?a = "fold ?f [1..<j] w"
  from Suc have jl: "j < length w" and len: "length ?a = length w"
    and pre: "\<forall>i<j. ?a ! i = sum_list (take (Suc i) w)"
    and post: "\<forall>i. j \<le> i \<longrightarrow> ?a ! i = w ! i"
    by simp_all
  show ?case
  proof (cases "j = 0")
    case True
    have "take (Suc 0) w = [w ! 0]" using jl True by (cases w) simp_all
    with True show ?thesis by simp
  next
    case False
    then have step: "fold ?f [1..<Suc j] w = ?a[j := ?a ! (j - 1) + ?a ! j]" by simp
    obtain j' where j': "j = Suc j'" using False by (cases j) auto
    have "?a ! j' = sum_list (take j w)" using pre j' by simp
    moreover have "?a ! j = w ! j" using post by simp
    moreover have "sum_list (take (Suc j) w) = sum_list (take j w) + w ! j"
      using jl by (simp add: take_Suc_conv_app_nth [of j w])
    moreover have "j - 1 = j'" using j' by simp
    ultimately have aj: "?a ! (j - 1) + ?a ! j = sum_list (take (Suc j) w)"
      by (simp only:)
    have c2: "\<forall>i<Suc j. (?a[j := ?a ! (j - 1) + ?a ! j]) ! i = sum_list (take (Suc i) w)"
    proof (intro allI impI)
      fix i assume "i < Suc j"
      then consider "i = j" | "i < j" by linarith
      then show "(?a[j := ?a ! (j - 1) + ?a ! j]) ! i = sum_list (take (Suc i) w)"
      proof cases
        case 1
        with aj len jl show ?thesis by simp
      next
        case 2
        with pre show ?thesis by simp
      qed
    qed
    have c3: "\<forall>i. Suc j \<le> i \<longrightarrow> (?a[j := ?a ! (j - 1) + ?a ! j]) ! i = w ! i"
      using post by simp
    show ?thesis unfolding step using len c2 c3 by simp
  qed
qed

lemma prefixSums_nth:
  "length (prefixSums w) = length w"
  "i < length w \<Longrightarrow> prefixSums w ! i = sum_list (take (Suc i) w)"
  using prefixSums_upto [of "length w" w] by (simp_all add: prefixSums_def)

lemma addGaps_upto:
  "j \<le> length a \<Longrightarrow>
   length (fold (\<lambda>i a. a[i := a ! i + (real i + 1) * 60]) [0..<j] a) = length a \<and>
   (\<forall>i<j. fold (\<lambda>i a. a[i := a ! i + (real i + 1) * 60]) [0..<j] a ! i =
            a ! i + (real i + 1) * 60) \<and>
   (\<forall>i. j \<le> i \<longrightarrow> fold (\<lambda>i a. a[i := a ! i + (real i + 1) * 60]) [0..<j] a ! i = a ! i)"
proof (induction j)
  case 0
  then show ?case by simp
next
  case (Suc j)
  let ?f = "\<lambda>i a. a[i := a ! i + (real i + 1) * 60]"
  let ?b = "fold ?f [0..<j] a"
  from Suc have jl: "j < length a" and len: "length ?b = length a"
    and pre: "\<forall>i<j. ?b ! i = a ! i + (real i + 1) * 60"
    and post: "\<forall>i. j \<le> i \<longrightarrow> ?b ! i = a ! i"
    by simp_all
  have step: "fold ?f [0..<Suc j] a = ?b[j := ?b ! j + (real j + 1) * 60]" by simp
  have c2: "\<forall>i<Suc j. (?b[j := ?b ! j + (real j + 1) * 60]) ! i = a ! i + (real i + 1) * 60"
  proof (intro allI impI)
    fix i assume "i < Suc j"
    then consider "i = j" | "i < j" by linarith
    then show "(?b[j := ?b ! j + (real j + 1) * 60]) ! i = a ! i + (real i + 1) * 60"
    proof cases
      case 1
      with post len jl show ?thesis by simp
    next
      case 2
      with pre show ?thesis by simp
    qed
  qed
  have c3: "\<forall>i. Suc j \<le> i \<longrightarrow> (?b[j := ?b ! j + (real j + 1) * 60]) ! i = a ! i"
    using post by simp
  show ?case unfolding step using len c2 c3 by simp
qed

lemma addGaps_nth:
  "length (addGaps a) = length a"
  "i < length a \<Longrightarrow> addGaps a ! i = a ! i + (real i + 1) * 60"
  using addGaps_upto [of "length a" a] by (simp_all add: addGaps_def)

lemma specOffset_sum:
  "i \<le> length w \<Longrightarrow> specOffset w i = sum_list (take i w) + real i * 60"
proof (induction i)
  case 0
  then show ?case by simp
next
  case (Suc i)
  then show ?case by (simp add: take_Suc_conv_app_nth algebra_simps)
qed

lemma offsets_table:
  "0 # addGaps (prefixSums w) = map (specOffset w) [0..<Suc (length w)]"
proof (rule nth_equalityI)
  show "length (0 # addGaps (prefixSums w)) = length (map (specOffset w) [0..<Suc (length w)])"
    by (simp add: addGaps_nth(1) prefixSums_nth(1))
next
  fix i assume "i < length (0 # addGaps (prefixSums w))"
  then have i: "i \<le> length w" by (simp add: addGaps_nth(1) prefixSums_nth(1))
  show "(0 # addGaps (prefixSums w)) ! i = map (specOffset w) [0..<Suc (length w)] ! i"
  proof (cases i)
    case 0
    then show ?thesis by (simp add: nth_map_upt del: upt_Suc)
  next
    case (Suc i')
    with i have i': "i' < length w" by simp
    have "(0 # addGaps (prefixSums w)) ! i = sum_list (take (Suc i') w) + (real i' + 1) * 60"
      using Suc i' by (simp add: addGaps_nth(2) prefixSums_nth)
    also have "\<dots> = specOffset w i" using specOffset_sum [OF i] Suc by simp
    also have "\<dots> = map (specOffset w) [0..<Suc (length w)] ! i"
      using i by (simp add: nth_map_upt del: upt_Suc)
    finally show ?thesis .
  qed
qed

lemma defined_cells_map_Some: "defined_cells (map Some w) = Inr w"
  by (induction w) simp_all

lemma defined_cells_InrD: "defined_cells a = Inr w \<Longrightarrow> a = map Some w"
proof (induction a arbitrary: w)
  case Nil
  then show ?case by simp
next
  case (Cons x a)
  show ?case
  proof (cases x)
    case None
    with Cons.prems show ?thesis by simp
  next
    case (Some v)
    with Cons.prems obtain vs where vs: "defined_cells a = Inr vs" and w: "w = v # vs"
      by (cases "defined_cells a") auto
    from Cons.IH [OF vs] Some w show ?thesis by simp
  qed
qed

lemma defined_cells_total:
  "\<forall>i<length a. a ! i \<noteq> None \<Longrightarrow> \<exists>w. defined_cells a = Inr w"
proof -
  assume a: "\<forall>i<length a. a ! i \<noteq> None"
  have "a = map Some (map the a)"
    by (rule nth_equalityI) (use a in auto)
  then show ?thesis using defined_cells_map_Some [of "map the a"] by (intro exI [of _ "map the a"]) simp
qed

subsection \<open>The whole run never faults\<close>

lemma level_below:
  assumes wf: "wfMap M"
  shows "k \<in> set (keys M) \<Longrightarrow> d \<le> level (heap M k) \<Longrightarrow> \<exists>k'\<in>set (keys M). level (heap M k') = d"
proof (induction "level (heap M k)" arbitrary: k)
  case 0
  then show ?case by auto
next
  case (Suc n)
  show ?case
  proof (cases "d = level (heap M k)")
    case True
    with Suc.prems(1) show ?thesis by auto
  next
    case False
    with Suc.prems(2) Suc.hyps(2) have dn: "d \<le> n" by simp
    from wf Suc.prems(1) have "nodeOK M k" by (simp add: wfMap_def nodesOK_def)
    with Suc.hyps(2) have dp: "0 < depth k" by (simp add: nodeOK_def)
    with wf Suc.prems(1) have p: "dirname k \<in> set (keys M)"
      and c: "k \<in> set (children (heap M (dirname k)))"
      by (simp_all add: wfMap_def linkedOn_def)
    from wf_children(4) [OF wf p c] Suc.hyps(2) have "n = level (heap M (dirname k))" by simp
    from Suc.hyps(1) [OF this p] dn this show ?thesis by simp
  qed
qed

lemma levelWidths_levels:
  "k \<in> set (keys M) \<Longrightarrow> level (heap M k) < length (levelWidths m M)"
  unfolding levelWidths_def by (rule length_fold_widthStep_mem) simp

lemma levelWidths_defined:
  assumes wf: "wfMap M" and i: "i < length (levelWidths m M)"
  shows "levelWidths m M ! i \<noteq> None"
proof -
  from length_fold_widthStep_bound [OF i [unfolded levelWidths_def]]
  obtain k where k: "k \<in> set (keys M)" "i \<le> level (heap M k)" by auto
  from level_below [OF wf k] obtain k' where k': "k' \<in> set (keys M)" "level (heap M k') = i"
    by blast
  then have "heap M k' \<in> set (filter (\<lambda>f. level f = i) (toSorted cmpLevel (map (heap M) (keys M))))"
    by simp
  then have "filter (\<lambda>f. level f = i) (toSorted cmpLevel (map (heap M) (keys M))) \<noteq> []"
    by (metis empty_iff empty_set)
  then have "arr_get (levelWidths m M) i \<noteq> None"
    unfolding levelWidths_cell by (intro fold_stepCell_Some) simp
  with i show ?thesis by (simp add: arr_get_def)
qed

lemma offsets_of_widths:
  assumes wf: "wfMap M"
  shows "\<exists>w. butlast (levelWidths m M) = map Some w \<and>
           offsetsOf (levelWidths m M) = Inr (map (specOffset w) [0..<Suc (length w)]) \<and>
           (\<forall>v\<in>set w. 0 \<le> v) \<and>
           (\<forall>k\<in>set (keys M). level (heap M k) < Suc (length w))"
proof -
  let ?W = "levelWidths m M"
  have "\<forall>i<length (butlast ?W). butlast ?W ! i \<noteq> None"
    using levelWidths_defined [OF wf, of _ m] by (simp add: nth_butlast)
  from defined_cells_total [OF this] obtain w where w: "defined_cells (butlast ?W) = Inr w"
    by blast
  then have b: "butlast ?W = map Some w" by (rule defined_cells_InrD)
  have o: "offsetsOf ?W = Inr (map (specOffset w) [0..<Suc (length w)])"
    unfolding offsetsOf_def w using offsets_table [of w] by simp
  have nn: "\<forall>v\<in>set w. 0 \<le> v"
  proof
    fix v assume "v \<in> set w"
    then obtain i where i: "i < length w" "w ! i = v" by (auto simp: in_set_conv_nth)
    with b have "butlast ?W ! i = Some v" by simp
    moreover from i b have il: "i < length (butlast ?W)" by simp
    ultimately have "?W ! i = Some v" by (simp add: nth_butlast)
    moreover from il have "i < length ?W" by simp
    ultimately have "arr_get ?W i = Some v" by (simp add: arr_get_def)
    then show "0 \<le> v" by (rule levelWidths_nonneg)
  qed
  have lv: "\<forall>k\<in>set (keys M). level (heap M k) < Suc (length w)"
  proof
    fix k assume "k \<in> set (keys M)"
    from levelWidths_levels [OF this, of m] have "level (heap M k) < length ?W" .
    moreover have "length w = length ?W - 1" using arg_cong [OF b, of length] by simp
    ultimately show "level (heap M k) < Suc (length w)" by simp
  qed
  show ?thesis using b o nn lv by blast
qed

lemma specOffset_nonneg:
  "\<forall>v\<in>set w. 0 \<le> v \<Longrightarrow> i \<le> length w \<Longrightarrow> 0 \<le> specOffset w i"
proof (induction i)
  case 0
  then show ?case by simp
next
  case (Suc i)
  then have "0 \<le> w ! i" by simp
  with Suc show ?case by simp
qed

lemma createFileDatas_run:
  "\<exists>M lo w.
     createFileDatas m fps = Inr (M, lo) \<and>
     wfMap (assignSeq (buildMap fps)) \<and> seqOK (assignSeq (buildMap fps)) \<and>
     sameShape (buildMap fps) (assignSeq (buildMap fps)) \<and>
     samePlan (assignSeq (buildMap fps)) M \<and>
     butlast (levelWidths m (assignSeq (buildMap fps))) = map Some w \<and>
     lo = map (specOffset w) [0..<Suc (length w)] \<and>
     (\<forall>v\<in>set w. 0 \<le> v) \<and>
     (\<forall>k\<in>set (keys (assignSeq (buildMap fps))).
        level (heap (assignSeq (buildMap fps)) k) < length lo \<and>
        nodeLaid (assignSeq (buildMap fps)) lo M k \<and> 0 \<le> yOf M k) \<and>
     sorted_wrt (above (assignSeq (buildMap fps)) M) (rootFiles (assignSeq (buildMap fps))) \<and>
     (rootFiles (assignSeq (buildMap fps)) \<noteq> [] \<longrightarrow>
        yOf M (hd (rootFiles (assignSeq (buildMap fps)))) = 0)"
proof -
  let ?B = "buildMap fps"
  let ?M0 = "assignSeq ?B"
  note A = assignSeq_ok [OF wfMap_buildMap [of fps]]
  from offsets_of_widths [OF A(2), of m] obtain w where
    b: "butlast (levelWidths m ?M0) = map Some w"
    and o: "offsetsOf (levelWidths m ?M0) = Inr (map (specOffset w) [0..<Suc (length w)])"
    and nn: "\<forall>v\<in>set w. 0 \<le> v"
    and lv: "\<forall>k\<in>set (keys ?M0). level (heap ?M0 k) < Suc (length w)"
    by blast
  let ?lo = "map (specOffset w) [0..<Suc (length w)]"
  have len: "length ?lo = Suc (length w)" by simp
  have ctx: "layoutCtx ?M0 ?lo"
    unfolding layoutCtx_def len using A(2,3) lv by simp
  from layout_final [OF ctx] obtain lr M where
    e: "eachRoot (length ?lo) ?lo (rootFiles ?M0) (None, ?M0) = Inr (lr, M)"
    and sp: "samePlan ?M0 M"
    and laid: "\<forall>k\<in>set (keys ?M0). nodeLaid ?M0 ?lo M k \<and> 0 \<le> yOf M k"
    and ab: "sorted_wrt (above ?M0 M) (rootFiles ?M0)"
    and fst: "rootFiles ?M0 \<noteq> [] \<longrightarrow> yOf M (hd (rootFiles ?M0)) = 0"
    by blast
  have c: "createFileDatas m fps = Inr (M, ?lo)"
    unfolding createFileDatas_def Let_def o using e by simp
  have k: "\<forall>k\<in>set (keys ?M0). level (heap ?M0 k) < length ?lo \<and>
      nodeLaid ?M0 ?lo M k \<and> 0 \<le> yOf M k"
    using lv laid unfolding len by simp
  show ?thesis
    by (intro exI [of _ M] exI [of _ ?lo] exI [of _ w] conjI c A(2) A(3) A(1) sp b refl nn k ab fst)
qed

subsection \<open>Facts about the result, stated on the result\<close>

lemma seqOK_samePlan:
  assumes sp: "samePlan M0 M" and ok: "seqOK M0"
  shows "seqOK M"
proof -
  have s: "seqOf M = seqOf M0" using samePlanD(2) [OF sp] by (simp add: fun_eq_iff)
  note sh = samePlanD(1) [OF sp]
  show ?thesis
    using ok unfolding seqOK_def s
    by (simp add: sortedChildren_sameShape [OF sh] rootsOf_sameShape [OF sh] sameShapeD(1,2) [OF sh])
qed

lemma above_samePlan: "samePlan M0 M \<Longrightarrow> above M M' a b = above M0 M' a b"
  by (simp add: above_def subtree_sameShape [OF samePlanD(1)])

lemma nodeLaid_samePlan:
  assumes sp: "samePlan M0 M"
  shows "nodeLaid M lo M' k = nodeLaid M0 lo M' k"
  unfolding nodeLaid_def
  by (simp add: above_samePlan [OF sp] samePlanD(2,4,5) [OF sp])

lemma rootFiles_samePlan:
  assumes sp: "samePlan M0 M"
  shows "rootFiles M = rootFiles M0"
  unfolding rootFiles_eq
  by (simp add: rootsOf_sameShape [OF samePlanD(1) [OF sp]] samePlanD(2) [OF sp])

lemma result_facts:
  assumes r: "createFileDatas m fps = Inr (M, lo)"
  shows "wfMap M" and "seqOK M" and "sameShape (buildMap fps) M"
    and "\<exists>w. butlast (levelWidths m (assignSeq (buildMap fps))) = map Some w \<and>
           lo = map (specOffset w) [0..<Suc (length w)] \<and> (\<forall>v\<in>set w. 0 \<le> v)"
    and "\<And>k. k \<in> set (keys M) \<Longrightarrow> level (heap M k) < length lo"
    and "\<And>k. k \<in> set (keys M) \<Longrightarrow> nodeLaid M lo M k"
    and "\<And>k. k \<in> set (keys M) \<Longrightarrow> 0 \<le> yOf M k"
    and "sorted_wrt (above M M) (rootFiles M)"
    and "rootFiles M \<noteq> [] \<Longrightarrow> yOf M (hd (rootFiles M)) = 0"
    and "samePlan (assignSeq (buildMap fps)) M"
proof -
  let ?M0 = "assignSeq (buildMap fps)"
  from createFileDatas_run [of m fps] r obtain w where
    wf: "wfMap ?M0" and ok: "seqOK ?M0" and sh: "sameShape (buildMap fps) ?M0"
    and sp: "samePlan ?M0 M"
    and b: "butlast (levelWidths m ?M0) = map Some w"
    and lo: "lo = map (specOffset w) [0..<Suc (length w)]"
    and nn: "\<forall>v\<in>set w. 0 \<le> v"
    and k: "\<forall>k\<in>set (keys ?M0). level (heap ?M0 k) < length lo \<and> nodeLaid ?M0 lo M k \<and> 0 \<le> yOf M k"
    and ab: "sorted_wrt (above ?M0 M) (rootFiles ?M0)"
    and fst: "rootFiles ?M0 \<noteq> [] \<longrightarrow> yOf M (hd (rootFiles ?M0)) = 0"
    by auto
  note sh' = samePlanD(1) [OF sp]
  show "wfMap M" using wfMap_sameShape [OF sh' wf] .
  show "seqOK M" using seqOK_samePlan [OF sp ok] .
  show "sameShape (buildMap fps) M" using sameShape_trans [OF sh sh'] .
  show "\<exists>w. butlast (levelWidths m ?M0) = map Some w \<and>
           lo = map (specOffset w) [0..<Suc (length w)] \<and> (\<forall>v\<in>set w. 0 \<le> v)"
    using b lo nn by blast
  show "level (heap M k) < length lo" if "k \<in> set (keys M)" for k
    using k that by (simp add: samePlanD(3,5) [OF sp])
  show "nodeLaid M lo M k" if "k \<in> set (keys M)" for k
    using k that by (simp add: samePlanD(3) [OF sp] nodeLaid_samePlan [OF sp])
  show "0 \<le> yOf M k" if "k \<in> set (keys M)" for k
    using k that by (simp add: samePlanD(3) [OF sp])
  have "above M M = above ?M0 M" using above_samePlan [OF sp] by (simp add: fun_eq_iff)
  then show "sorted_wrt (above M M) (rootFiles M)"
    using ab by (simp add: rootFiles_samePlan [OF sp])
  show "yOf M (hd (rootFiles M)) = 0" if "rootFiles M \<noteq> []"
    using fst that by (simp add: rootFiles_samePlan [OF sp])
  show "samePlan ?M0 M" by (rule sp)
qed

lemma createFileDatas_total: "\<exists>M lo. createFileDatas m fps = Inr (M, lo)"
  using createFileDatas_run [of m fps] by blast

subsection \<open>Lemmas shared by the properties of the specification\<close>

lemma rank_inj:
  assumes m: "map f xs = [0..<length xs]" and a: "a \<in> set xs" and b: "b \<in> set xs"
    and eq: "f a = f b"
  shows "a = b"
proof -
  have "a = xs ! f a" using nth_of_rank(2) [OF m a] by (rule sym)
  also have "\<dots> = xs ! f b" by (simp only: eq)
  also have "\<dots> = b" using nth_of_rank(2) [OF m b] .
  finally show ?thesis .
qed

lemma child_rank_inj:
  assumes wf: "wfMap M" and ok: "seqOK M" and k: "k \<in> set (keys M)"
    and a: "a \<in> set (children (heap M k))" and b: "b \<in> set (children (heap M k))"
    and eq: "seqOf M a = seqOf M b"
  shows "a = b"
proof -
  let ?L = "sortedChildren M k"
  have m: "map (seqOf M) ?L = [0..<length ?L]"
    using ok k by (simp add: seqOK_def sortedChildren_def)
  have "a \<in> set ?L" "b \<in> set ?L" using a b by (simp_all add: sortedChildren_def)
  from rank_inj [OF m this eq] show ?thesis .
qed

lemma child_ranks:
  assumes wf: "wfMap M" and ok: "seqOK M" and k: "k \<in> set (keys M)"
  shows "seqOf M ` set (children (heap M k)) = {0..<length (children (heap M k))}"
proof -
  let ?L = "sortedChildren M k"
  have m: "map (seqOf M) ?L = [0..<length (children (heap M k))]"
    using ok k by (simp add: seqOK_def)
  have "seqOf M ` set (children (heap M k)) = set (map (seqOf M) ?L)"
    by (simp add: sortedChildren_def)
  with m show ?thesis by simp
qed

lemma above_disjoint:
  assumes "above M M a b"
  shows "yOf M ` subtree M a \<inter> yOf M ` subtree M b = {}"
proof -
  have "yOf M u \<noteq> yOf M v" if "u \<in> subtree M a" "v \<in> subtree M b" for u v
    using assms that unfolding above_def by fastforce
  then show ?thesis by auto
qed

lemma siblings_disjoint_rows:
  assumes r: "createFileDatas m fps = Inr (M, lo)" and k: "k \<in> set (keys M)"
    and a: "a \<in> set (children (heap M k))" and b: "b \<in> set (children (heap M k))"
    and ne: "a \<noteq> b"
  shows "yOf M ` subtree M a \<inter> yOf M ` subtree M b = {}"
proof -
  note F = result_facts [OF r]
  from child_rank_inj [OF F(1,2) k a b] ne have "seqOf M a \<noteq> seqOf M b" by auto
  then consider "seqOf M a < seqOf M b" | "seqOf M b < seqOf M a" by linarith
  then show ?thesis
  proof cases
    case 1
    with F(6) [OF k] a b have "above M M a b" by (simp add: nodeLaid_def)
    then show ?thesis by (rule above_disjoint)
  next
    case 2
    with F(6) [OF k] a b have "above M M b a" by (simp add: nodeLaid_def)
    from above_disjoint [OF this] show ?thesis by auto
  qed
qed

lemma roots_disjoint_rows:
  assumes r: "createFileDatas m fps = Inr (M, lo)"
    and a: "a \<in> set (keys M)" "level (heap M a) = 0"
    and b: "b \<in> set (keys M)" "level (heap M b) = 0"
    and ne: "a \<noteq> b"
  shows "yOf M ` subtree M a \<inter> yOf M ` subtree M b = {}"
proof -
  note F = result_facts [OF r]
  note R = rootFiles_facts [OF F(1,2)]
  have ar: "a \<in> set (rootFiles M)" and br: "b \<in> set (rootFiles M)"
    using a b R(1) by (simp_all add: rootsOf_def)
  have m: "map (seqOf M) (rootsOf M) = [0..<length (rootsOf M)]"
    using F(2) by (simp add: seqOK_def)
  have "a \<in> set (rootsOf M)" "b \<in> set (rootsOf M)" using ar br R(1) by simp_all
  from rank_inj [OF m this] ne
  have "seqOf M a \<noteq> seqOf M b" by auto
  then consider "seqOf M a < seqOf M b" | "seqOf M b < seqOf M a" by linarith
  then show ?thesis
  proof cases
    case 1
    from sorted_wrt_pick [OF F(8) R(3) ar br 1] show ?thesis by (rule above_disjoint)
  next
    case 2
    from above_disjoint [OF sorted_wrt_pick [OF F(8) R(3) br ar 2]] show ?thesis by auto
  qed
qed

lemma result_eq:
  "createFileDatas m fps =
     Inr (fst (projr (createFileDatas m fps)), snd (projr (createFileDatas m fps)))"
  using createFileDatas_total [of m fps] by auto

lemma first_child_exists:
  assumes wf: "wfMap M" and ok: "seqOK M" and k: "k \<in> set (keys M)"
    and ne: "children (heap M k) \<noteq> []"
  shows "\<exists>c\<in>set (children (heap M k)). seqOf M c = 0"
proof -
  have "0 \<in> {0..<length (children (heap M k))}" using ne by simp
  then have "0 \<in> seqOf M ` set (children (heap M k))"
    using child_ranks [OF wf ok k] by simp
  then show ?thesis by force
qed

lemma parent_row:
  assumes r: "createFileDatas m fps = Inr (M, lo)" and k: "k \<in> set (keys M)"
    and ne: "children (heap M k) \<noteq> []"
  shows "yOf M k = Min (yOf M ` set (children (heap M k)))"
    and "\<exists>c\<in>set (children (heap M k)). seqOf M c = 0 \<and> yOf M c = yOf M k"
    and "\<forall>c\<in>set (children (heap M k)). yOf M k \<le> yOf M c"
    and "\<forall>c\<in>set (children (heap M k)). seqOf M c = 0 \<longrightarrow> yOf M c = yOf M k"
proof -
  note F = result_facts [OF r]
  from F(6) [OF k] have le: "\<forall>c\<in>set (children (heap M k)). yOf M k \<le> yOf M c"
    and z: "\<forall>c\<in>set (children (heap M k)). seqOf M c = 0 \<longrightarrow> yOf M c = yOf M k"
    by (simp_all add: nodeLaid_def)
  from first_child_exists [OF F(1,2) k ne] z
  obtain c where c: "c \<in> set (children (heap M k))" "seqOf M c = 0" "yOf M c = yOf M k"
    by blast
  show "\<exists>c\<in>set (children (heap M k)). seqOf M c = 0 \<and> yOf M c = yOf M k"
    using c by blast
  show "\<forall>c\<in>set (children (heap M k)). yOf M k \<le> yOf M c" by (rule le)
  show "\<forall>c\<in>set (children (heap M k)). seqOf M c = 0 \<longrightarrow> yOf M c = yOf M k" by (rule z)
  have "Min (yOf M ` set (children (heap M k))) = yOf M k"
  proof (rule Min_eqI)
    show "finite (yOf M ` set (children (heap M k)))" by simp
    show "yOf M k \<le> y" if "y \<in> yOf M ` set (children (heap M k))" for y
      using that le by auto
    show "yOf M k \<in> yOf M ` set (children (heap M k))"
      using c by (metis imageI)
  qed
  then show "yOf M k = Min (yOf M ` set (children (heap M k)))" by simp
qed

lemma offsets_nonneg:
  assumes r: "createFileDatas m fps = Inr (M, lo)" and i: "i < length lo"
  shows "0 \<le> lo ! i"
proof -
  from result_facts(4) [OF r] obtain w where
    lo: "lo = map (specOffset w) [0..<Suc (length w)]" and nn: "\<forall>v\<in>set w. 0 \<le> v"
    by blast
  from i lo have "i \<le> length w" by simp
  then have "lo ! i = specOffset w i" unfolding lo by (simp add: nth_map_upt del: upt_Suc)
  with specOffset_nonneg [OF nn \<open>i \<le> length w\<close>] show ?thesis by simp
qed

lemma offsets_first:
  assumes r: "createFileDatas m fps = Inr (M, lo)"
  shows "lo ! 0 = 0"
proof -
  from result_facts(4) [OF r] obtain w where
    lo: "lo = map (specOffset w) [0..<Suc (length w)]" by blast
  show ?thesis unfolding lo by (simp add: nth_map_upt del: upt_Suc)
qed

lemma node_x:
  assumes r: "createFileDatas m fps = Inr (M, lo)" and k: "k \<in> set (keys M)"
  shows "xOf M k = lo ! level (heap M k)"
  using result_facts(6) [OF r k] by (simp add: nodeLaid_def)

lemma keys_nonempty:
  assumes "fps \<noteq> []"
  shows "keys (buildMap fps) \<noteq> []"
proof -
  from assms obtain fp where fp: "fp \<in> set fps" by (cases fps) auto
  have "fp \<in> set (prefixes fp)" by (simp add: prefixes_iff)
  with fp have "fp \<in> set (keys (buildMap fps))" by (auto simp: set_keys_buildMap)
  then show ?thesis by auto
qed

lemma first_root:
  assumes r: "createFileDatas m fps = Inr (M, lo)" and ne: "fps \<noteq> []"
  shows "rootFiles M \<noteq> []"
    and "xOf M (hd (rootFiles M)) = 0" and "yOf M (hd (rootFiles M)) = 0"
    and "hd (rootFiles M) \<in> set (keys M)" and "level (heap M (hd (rootFiles M))) = 0"
    and "seqOf M (hd (rootFiles M)) = 0"
proof -
  note F = result_facts [OF r]
  note R = rootFiles_facts [OF F(1,2)]
  have "keys M \<noteq> []" using keys_nonempty [OF ne] sameShapeD(1) [OF F(3)] by simp
  then obtain k where "k \<in> set (keys M)" by (cases "keys M") auto
  from key_under_root [OF F(1) this] have "rootsOf M \<noteq> []" by auto
  with R(1) show n: "rootFiles M \<noteq> []" by auto
  then have "hd (rootFiles M) \<in> set (rootsOf M)" using R(1) by (metis hd_in_set)
  then show h: "hd (rootFiles M) \<in> set (keys M)" and l: "level (heap M (hd (rootFiles M))) = 0"
    by (simp_all add: rootsOf_def)
  show "yOf M (hd (rootFiles M)) = 0" using F(9) [OF n] .
  show "xOf M (hd (rootFiles M)) = 0" using node_x [OF r h] l offsets_first [OF r] by simp
  show "seqOf M (hd (rootFiles M)) = 0" using R(5) [OF n] .
qed

lemma ordering_law:
  assumes r: "createFileDatas m fps = Inr (M, lo)" and k: "k \<in> set (keys M)"
    and a: "a \<in> set (children (heap M k))" and b: "b \<in> set (children (heap M k))"
  shows "ftype (heap M a) = Dir \<Longrightarrow> ftype (heap M b) = Js \<Longrightarrow> seqOf M a < seqOf M b"
    and "ftype (heap M a) = ftype (heap M b) \<Longrightarrow> seqOf M a < seqOf M b \<Longrightarrow>
         base (heap M a) < base (heap M b)"
proof -
  note F = result_facts [OF r]
  have ta: "ftype (heap M a) = Dir \<or> ftype (heap M a) = Js"
    and tb: "ftype (heap M b) = Dir \<or> ftype (heap M b) = Js"
    using wf_ftype [OF F(1) wf_children(1) [OF F(1) k a]]
      wf_ftype [OF F(1) wf_children(1) [OF F(1) k b]] by simp_all
  show "seqOf M a < seqOf M b" if d: "ftype (heap M a) = Dir" and j: "ftype (heap M b) = Js"
  proof (rule ccontr)
    assume "\<not> seqOf M a < seqOf M b"
    moreover have "a \<noteq> b" using d j by auto
    then have "seqOf M a \<noteq> seqOf M b" using child_rank_inj [OF F(1,2) k a b] by auto
    ultimately have "seqOf M b < seqOf M a" by simp
    from children_ranked [OF F(1,2) k b a this]
    have "cmpChildren (heap M b) (heap M a) \<le> 0" .
    moreover have "ftype (heap M b) \<noteq> ftype (heap M a)" using d j by simp
    ultimately have "ftype (heap M b) = Dir" using ta tb by (simp add: cmpChildren_diff)
    with j show False by simp
  qed
  show "base (heap M a) < base (heap M b)"
    if s: "ftype (heap M a) = ftype (heap M b)" and lt: "seqOf M a < seqOf M b"
    using children_ranked [OF F(1,2) k a b lt] s by (simp add: cmpChildren_same)
qed

lemma result_fields:
  assumes r: "createFileDatas m fps = Inr (M, lo)"
  shows "keys M = keys (buildMap fps)"
    and "children (heap M k) = children (heap (buildMap fps) k)"
    and "ftype (heap M k) = ftype (heap (buildMap fps) k)"
    and "path (heap M k) = path (heap (buildMap fps) k)"
    and "base (heap M k) = base (heap (buildMap fps) k)"
    and "level (heap M k) = level (heap (buildMap fps) k)"
    and "seq (heap M k) = seq (heap (assignSeq (buildMap fps)) k)"
    and "parent (heap M k) = parent (heap (buildMap fps) k)"
  using sameShapeD [OF result_facts(3) [OF r]] samePlanD(6) [OF result_facts(10) [OF r]]
  by (simp_all add: seqOf_def)

lemma roots_of_result:
  assumes r: "createFileDatas m fps = Inr (M, lo)"
  shows "rootsOf M = firstSeen (map (\<lambda>fp. hd (segs fp)) fps)"
    and "map (seqOf M) (rootsOf M) = [0..<length (rootsOf M)]"
proof -
  note F = result_facts [OF r]
  have "rootsOf M = filter (\<lambda>k. depth k = 0) (keys M)" using rootsOf_wf [OF F(1)] .
  also have "keys M = keys (buildMap fps)" using result_fields(1) [OF r] .
  finally show "rootsOf M = firstSeen (map (\<lambda>fp. hd (segs fp)) fps)"
    by (simp add: roots_buildMap)
  show "map (seqOf M) (rootsOf M) = [0..<length (rootsOf M)]"
    using F(2) by (simp add: seqOK_def)
qed

lemma specOffset_step:
  assumes nn: "\<forall>v\<in>set w. 0 \<le> v" and i: "i < length w"
  shows "specOffset w i + 60 \<le> specOffset w (Suc i)" and "specOffset w i < specOffset w (Suc i)"
proof -
  from nn i have "0 \<le> w ! i" by simp
  then show "specOffset w i + 60 \<le> specOffset w (Suc i)"
    and "specOffset w i < specOffset w (Suc i)" by simp_all
qed






lemma parent_link:
  "parent (heap (link files i M) k) =
     (if k = files ! i then Some (files ! (i - 1)) else parent (heap M k))"
  by (simp add: link_def Let_def)

lemma parent_link_fold:
  assumes files: "files = map (prefixAt (segs fp)) [0..<length (segs fp)]"
    and j: "j \<le> length (segs fp)"
  shows "parent (heap (fold (link files) [1..<j] M) k) =
           (if k \<in> prefixAt (segs fp) ` {1..<j} then Some (dirname k) else parent (heap M k))"
  using j
proof (induction j)
  case 0
  then show ?case by simp
next
  case (Suc j)
  show ?case
  proof (cases "j = 0")
    case True
    then show ?thesis by simp
  next
    case False
    then have j0: "0 < j" by simp
    from Suc have jn: "j < length (segs fp)" by simp
    obtain j' where j': "j = Suc j'" using j0 by (cases j) auto
    have fj: "files ! j = prefixAt (segs fp) j" "files ! (j - 1) = prefixAt (segs fp) j'"
      using jn j' files by simp_all
    have dn: "dirname (prefixAt (segs fp) j) = prefixAt (segs fp) j'"
      using dirname_prefixAt [of j' fp] jn j' by simp
    have step: "fold (link files) [1..<Suc j] M = link files j (fold (link files) [1..<j] M)"
      using j0 by simp
    have s: "{1..<Suc j} = insert j {1..<j}" using j0 by auto
    have IH: "parent (heap (fold (link files) [1..<j] M) k) =
           (if k \<in> prefixAt (segs fp) ` {1..<j} then Some (dirname k) else parent (heap M k))"
      using Suc by simp
    show ?thesis
      unfolding step parent_link fj s IH using dn by auto
  qed
qed

lemma addPath_parentsOK:
  assumes wf: "wfMap M" and ok: "parentsOK M"
  shows "parentsOK (addPath fp M)"
  unfolding parentsOK_def
proof
  let ?n = "length (segs fp)"
  let ?M1 = "fold (ensure (segs fp)) [0..<?n] M"
  fix k assume k: "k \<in> set (keys (addPath fp M))"
  from wf have nok: "nodesOK M" by (simp add: wfMap_def)
  from ensure_fold [OF nok le_refl, of fp]
  have e3: "\<forall>k\<in>set (keys M). heap ?M1 k = heap M k"
    and e4: "\<forall>i<?n. prefixAt (segs fp) i \<notin> set (keys M) \<longrightarrow>
               heap ?M1 (prefixAt (segs fp) i) = freshNode (segs fp) i"
    by blast+
  have p: "parent (heap (addPath fp M) k) =
      (if k \<in> prefixAt (segs fp) ` {1..<?n} then Some (dirname k) else parent (heap ?M1 k))"
    unfolding addPath_eq by (rule parent_link_fold [OF refl le_refl])
  show "parent (heap (addPath fp M) k) = (if 0 < depth k then Some (dirname k) else None)"
  proof (cases "k \<in> prefixAt (segs fp) ` {1..<?n}")
    case True
    then obtain i where "1 \<le> i" "i < ?n" "k = prefixAt (segs fp) i" by auto
    with depth_prefixAt [of i fp] have "0 < depth k" by simp
    with True p show ?thesis by simp
  next
    case False
    show ?thesis
    proof (cases "k \<in> set (keys M)")
      case True
      with e3 have "heap ?M1 k = heap M k" by simp
      with False p ok True show ?thesis by (simp add: parentsOK_def)
    next
      case out: False
      with k addPath_wf(2) [OF wf, of fp] obtain i where i: "i < ?n" "k = prefixAt (segs fp) i"
        by (auto simp: set_prefixes)
      with False have "i = 0" by (cases i) auto
      with i depth_prefixAt [of i fp] have d: "depth k = 0" by simp
      from e4 i out have "heap ?M1 k = freshNode (segs fp) i" by simp
      then have "parent (heap ?M1 k) = None" by (simp add: freshNode_def)
      with False p d show ?thesis by simp
    qed
  qed
qed

lemma parentsOK_buildMap: "parentsOK (buildMap fps)"
proof (induction fps rule: rev_induct)
  case Nil
  then show ?case by (simp add: buildMap_def emptyMap_def parentsOK_def)
next
  case (snoc fp fps)
  then show ?case
    unfolding buildMap_snoc by (rule addPath_parentsOK [OF wfMap_buildMap])
qed

lemma parent_of_result:
  assumes r: "createFileDatas m fps = Inr (M, lo)" and k: "k \<in> set (keys M)"
  shows "parent (heap M k) = (if 0 < level (heap M k) then Some (dirname k) else None)"
    and "0 < level (heap M k) \<Longrightarrow>
           dirname k \<in> set (keys M) \<and> k \<in> set (children (heap M (dirname k)))"
proof -
  note F = result_facts [OF r]
  from F(1) k have l: "level (heap M k) = depth k"
    by (simp add: wfMap_def nodesOK_def nodeOK_def)
  from k have "k \<in> set (keys (buildMap fps))" by (simp add: result_fields(1) [OF r])
  with parentsOK_buildMap [of fps]
  have "parent (heap (buildMap fps) k) = (if 0 < depth k then Some (dirname k) else None)"
    by (simp add: parentsOK_def)
  then show "parent (heap M k) = (if 0 < level (heap M k) then Some (dirname k) else None)"
    by (simp add: result_fields(8) [OF r] l)
  show "dirname k \<in> set (keys M) \<and> k \<in> set (children (heap M (dirname k)))"
    if "0 < level (heap M k)"
    using F(1) k that l by (simp add: wfMap_def linkedOn_def)
qed

lemma bitlen_eqI:
  assumes "0 < b" and "2 ^ nat (b - 1) \<le> n" and "n < 2 ^ nat b"
  shows "bitlen n = b"
proof (rule antisym)
  show "bitlen n \<le> b" using assms by (simp add: bitlen_le_iff_power)
  show "b \<le> bitlen n" using assms by (simp add: bitlen_ge_iff_power nat_diff_distrib)
qed

lemma bitlen_scaled:
  assumes x: "1 \<le> (x::real)"
  shows "bitlen \<lfloor>x * 2 ^ k\<rfloor> = bitlen \<lfloor>x\<rfloor> + int k"
proof -
  let ?n = "\<lfloor>x\<rfloor>"
  let ?b = "bitlen ?n"
  from x have n: "0 < ?n" by simp
  from bitlen_bounds [OF n] have lo: "2 ^ nat (?b - 1) \<le> ?n" and hi: "?n < 2 ^ nat ?b" by simp_all
  from n have b: "0 < ?b" by (simp add: bitlen_alt_def)
  have "real_of_int (2 ^ nat (?b - 1)) \<le> real_of_int ?n" using lo by (simp only: of_int_le_iff)
  also have "\<dots> \<le> x" by simp
  finally have xlo: "(2::real) ^ nat (?b - 1) \<le> x" by simp
  have "?n + 1 \<le> 2 ^ nat ?b" using hi by simp
  then have "real_of_int (?n + 1) \<le> real_of_int (2 ^ nat ?b)" by (simp only: of_int_le_iff)
  then have "real_of_int ?n + 1 \<le> 2 ^ nat ?b" by simp
  moreover have "x < real_of_int ?n + 1" by linarith
  ultimately have xhi: "x < (2::real) ^ nat ?b" by linarith
  have e1: "nat (?b + int k - 1) = nat (?b - 1) + k" using b by (simp add: nat_add_distrib)
  have e2: "nat (?b + int k) = nat ?b + k" using b by (simp add: nat_add_distrib)
  have "(2::real) ^ (nat (?b - 1) + k) \<le> x * 2 ^ k"
    using xlo by (simp add: power_add)
  then have "real_of_int (2 ^ (nat (?b - 1) + k)) \<le> x * 2 ^ k" by simp
  then have l: "2 ^ (nat (?b - 1) + k) \<le> \<lfloor>x * 2 ^ k\<rfloor>" by (simp only: le_floor_iff)
  have "x * 2 ^ k < 2 ^ (nat ?b + k)" using xhi by (simp add: power_add)
  then have "x * 2 ^ k < real_of_int (2 ^ (nat ?b + k))" by simp
  then have h: "\<lfloor>x * 2 ^ k\<rfloor> < 2 ^ (nat ?b + k)" by (simp only: floor_less_iff)
  show ?thesis
    by (rule bitlen_eqI) (use b l h in \<open>simp_all add: e1 e2\<close>)
qed

lemma ulpExp_code [code]:
  "ulpExp x =
     (if 1 \<le> \<bar>x\<bar> then bitlen \<lfloor>\<bar>x\<bar>\<rfloor> - 53
      else if x = 0 then - int emin
      else max (bitlen \<lfloor>\<bar>x\<bar> * 2 ^ emin\<rfloor> - int emin - 53) (- int emin))"
proof (cases "1 \<le> \<bar>x\<bar>")
  case True
  have "0 \<le> bitlen \<lfloor>\<bar>x\<bar>\<rfloor>" by (rule bitlen_nonneg)
  then have "max (bitlen \<lfloor>\<bar>x\<bar>\<rfloor> - 53) (- int emin) = bitlen \<lfloor>\<bar>x\<bar>\<rfloor> - 53"
    by (simp add: emin_def)
  with True show ?thesis
    by (simp add: ulpExp_def bitlen_scaled [OF True])
next
  case False
  then show ?thesis by (simp add: ulpExp_def)
qed

lemma rne_0 [simp]: "rne 0 = 0"
  by (simp add: rne_def)

lemma rne_of_int [simp]: "rne (of_int m) = m"
  by (simp add: rne_def)

lemma fl_code [code]:
  "fl x = (if x = 0 then 0 else of_int (rne (x / 2 powi ulpExp x)) * 2 powi ulpExp x)"
  by (simp add: fl_def)

lemma fl_0 [simp]: "fl 0 = 0"
  by (simp add: fl_def)

lemma fl_scaled:
  assumes "x / 2 powi ulpExp x = of_int m"
  shows "fl x = x"
proof -
  have "(2::real) powi ulpExp x \<noteq> 0" by simp
  with assms have "x = of_int m * 2 powi ulpExp x" by (simp add: field_simps)
  then show ?thesis unfolding fl_def assms rne_of_int by simp
qed

lemma powi_diff_nat:
  "b \<le> a \<Longrightarrow> (2::real) powi (int b - int a) = 1 / 2 ^ (a - b)"
  by (simp add: power_int_def nat_diff_distrib field_simps of_nat_diff)

lemma fl_grid:
  assumes n: "n \<le> 2 ^ 53" and k: "k \<le> emin"
  shows "fl (real n / 2 ^ k) = real n / 2 ^ k"
proof (cases "n = 0")
  case True
  then show ?thesis by simp
next
  case False
  let ?x = "real n / 2 ^ k"
  let ?b = "bitlen (int n)"
  from False have pos: "0 < int n" by simp
  then have b1: "1 \<le> ?b" by (simp add: bitlen_alt_def)
  from bitlen_bounds [OF pos] have lo: "2 ^ nat (?b - 1) \<le> int n" by simp
  from n have "int n < 2 ^ nat 54" by (simp add: numeral_power_le_nat_cancel_iff)
  then have b54: "?b \<le> 54" by (simp add: bitlen_le_iff_power)
  have "\<bar>?x\<bar> * 2 ^ emin = real n * 2 ^ (emin - k)"
    using k by (simp add: power_diff)
  also have "\<dots> = real_of_int (int n * 2 ^ (emin - k))" by simp
  finally have "\<lfloor>\<bar>?x\<bar> * 2 ^ emin\<rfloor> = int n * 2 ^ (emin - k)" by (simp only: floor_of_int)
  then have "bitlen \<lfloor>\<bar>?x\<bar> * 2 ^ emin\<rfloor> = ?b + int (emin - k)"
    using pos by (simp only: bitlen_pow2)
  then have e: "ulpExp ?x = max (?b - int k - 53) (- int emin)"
    using k by (simp add: ulpExp_def of_nat_diff)
  have x: "?x / 2 powi j = real n * 2 powi (- int k - j)" for j
    by (simp add: power_int_diff power_int_minus field_simps)
  show ?thesis
  proof (cases "- int emin \<le> ?b - int k - 53")
    case normal: True
    with e have e': "ulpExp ?x = ?b - int k - 53" by simp
    show ?thesis
    proof (cases "?b \<le> 53")
      case True
      then have "(2::real) powi (- int k - (?b - int k - 53)) = 2 ^ nat (53 - ?b)"
        by (simp add: power_int_def)
      then have "?x / 2 powi ulpExp ?x = of_int (int n * 2 ^ nat (53 - ?b))"
        unfolding e' x by simp
      then show ?thesis by (rule fl_scaled)
    next
      case False
      with b54 have b: "?b = 54" by simp
      from lo b have "2 ^ 53 \<le> int n" by simp
      with n have n53: "n = 2 ^ 53" by (simp add: numeral_power_le_nat_cancel_iff)
      have "(2::real) powi (- int k - (?b - int k - 53)) = 1 / 2"
        by (simp add: b)
      then have "?x / 2 powi ulpExp ?x = real n / 2" unfolding e' x by simp
      also have "\<dots> = of_int (2 ^ 52)" by (simp add: n53)
      finally show ?thesis by (rule fl_scaled)
    qed
  next
    case False
    with e have e': "ulpExp ?x = - int emin" by simp
    have "(2::real) powi (- int k - (- int emin)) = 2 ^ (emin - k)"
      using k by (simp add: power_int_def nat_diff_distrib)
    then have "?x / 2 powi ulpExp ?x = of_int (int n * 2 ^ (emin - k))"
      unfolding e' x by simp
    then show ?thesis by (rule fl_scaled)
  qed
qed

lemma fl_onGrid:
  assumes g: "onGrid k x" and k: "k \<le> emin" and b: "x * 2 ^ k \<le> 2 ^ 53"
  shows "fl x = x"
proof -
  from g obtain n :: nat where x: "x = real n / 2 ^ k" by (auto simp: onGrid_def)
  with b have "real n \<le> 2 ^ 53" by simp
  then have "n \<le> 2 ^ 53" by (simp add: numeral_power_le_nat_cancel_iff flip: of_nat_le_iff)
  from fl_grid [OF this k] x show ?thesis by simp
qed

lemma onGrid_add: "onGrid k x \<Longrightarrow> onGrid k y \<Longrightarrow> onGrid k (x + y)"
proof -
  assume "onGrid k x" "onGrid k y"
  then obtain n m :: nat where "x = real n / 2 ^ k" "y = real m / 2 ^ k"
    by (auto simp: onGrid_def)
  then have "x + y = real (n + m) / 2 ^ k" by (simp add: add_divide_distrib)
  then show ?thesis unfolding onGrid_def by blast
qed

lemma onGrid_nat: "onGrid k (real n)"
proof -
  have "real n = real (n * 2 ^ k) / 2 ^ k" by simp
  then show ?thesis unfolding onGrid_def by blast
qed

lemma onGrid_0 [simp]: "onGrid k 0"
  using onGrid_nat [of k 0] by simp

lemma onGrid_nonneg: "onGrid k x \<Longrightarrow> 0 \<le> x"
  by (auto simp: onGrid_def)



lemma fadd_exact:
  assumes "onGrid k a" and "onGrid k b" and "k \<le> emin" and "(a + b) * 2 ^ k \<le> 2 ^ 53"
  shows "fadd a b = a + b"
  unfolding fadd_def using fl_onGrid [OF onGrid_add [OF assms(1,2)] assms(3,4)] .

lemma prefixSums64_upto:
  "j \<le> length w \<Longrightarrow>
   length (fold (\<lambda>i a. a[i := fadd (a ! (i - 1)) (a ! i)]) [1..<j] w) = length w \<and>
   (\<forall>i<j. fold (\<lambda>i a. a[i := fadd (a ! (i - 1)) (a ! i)]) [1..<j] w ! i = runSum64 w i) \<and>
   (\<forall>i. j \<le> i \<longrightarrow> fold (\<lambda>i a. a[i := fadd (a ! (i - 1)) (a ! i)]) [1..<j] w ! i = w ! i)"
proof (induction j)
  case 0
  then show ?case by simp
next
  case (Suc j)
  let ?f = "\<lambda>i a. a[i := fadd (a ! (i - 1)) (a ! i)]"
  let ?a = "fold ?f [1..<j] w"
  from Suc have jl: "j < length w" and len: "length ?a = length w"
    and pre: "\<forall>i<j. ?a ! i = runSum64 w i"
    and post: "\<forall>i. j \<le> i \<longrightarrow> ?a ! i = w ! i"
    by simp_all
  show ?case
  proof (cases "j = 0")
    case True
    then show ?thesis by simp
  next
    case False
    then have step: "fold ?f [1..<Suc j] w = ?a[j := fadd (?a ! (j - 1)) (?a ! j)]" by simp
    obtain j' where j': "j = Suc j'" using False by (cases j) auto
    have "?a ! j' = runSum64 w j'" using pre j' by simp
    moreover have "?a ! j = w ! j" using post by simp
    moreover have "j - 1 = j'" using j' by simp
    ultimately have "fadd (?a ! (j - 1)) (?a ! j) = fadd (runSum64 w j') (w ! j)"
      by (simp only:)
    then have aj: "fadd (?a ! (j - 1)) (?a ! j) = runSum64 w j" by (simp add: j')
    have c2: "\<forall>i<Suc j. (?a[j := fadd (?a ! (j - 1)) (?a ! j)]) ! i = runSum64 w i"
    proof (intro allI impI)
      fix i assume "i < Suc j"
      then consider "i = j" | "i < j" by linarith
      then show "(?a[j := fadd (?a ! (j - 1)) (?a ! j)]) ! i = runSum64 w i"
      proof cases
        case 1
        with aj len jl show ?thesis by simp
      next
        case 2
        with pre show ?thesis by simp
      qed
    qed
    have c3: "\<forall>i. Suc j \<le> i \<longrightarrow> (?a[j := fadd (?a ! (j - 1)) (?a ! j)]) ! i = w ! i"
      using post by simp
    show ?thesis unfolding step using len c2 c3 by simp
  qed
qed

lemma prefixSums64_nth:
  "length (prefixSums64 w) = length w"
  "i < length w \<Longrightarrow> prefixSums64 w ! i = runSum64 w i"
  using prefixSums64_upto [of "length w" w] by (simp_all add: prefixSums64_def)

lemma addGaps64_upto:
  "j \<le> length a \<Longrightarrow>
   length (fold (\<lambda>i a. a[i := fadd (a ! i) ((real i + 1) * 60)]) [0..<j] a) = length a \<and>
   (\<forall>i<j. fold (\<lambda>i a. a[i := fadd (a ! i) ((real i + 1) * 60)]) [0..<j] a ! i =
            fadd (a ! i) ((real i + 1) * 60)) \<and>
   (\<forall>i. j \<le> i \<longrightarrow> fold (\<lambda>i a. a[i := fadd (a ! i) ((real i + 1) * 60)]) [0..<j] a ! i = a ! i)"
proof (induction j)
  case 0
  then show ?case by simp
next
  case (Suc j)
  let ?f = "\<lambda>i a. a[i := fadd (a ! i) ((real i + 1) * 60)]"
  let ?b = "fold ?f [0..<j] a"
  from Suc have jl: "j < length a" and len: "length ?b = length a"
    and pre: "\<forall>i<j. ?b ! i = fadd (a ! i) ((real i + 1) * 60)"
    and post: "\<forall>i. j \<le> i \<longrightarrow> ?b ! i = a ! i"
    by simp_all
  have step: "fold ?f [0..<Suc j] a = ?b[j := fadd (?b ! j) ((real j + 1) * 60)]" by simp
  have c2: "\<forall>i<Suc j. (?b[j := fadd (?b ! j) ((real j + 1) * 60)]) ! i =
      fadd (a ! i) ((real i + 1) * 60)"
  proof (intro allI impI)
    fix i assume "i < Suc j"
    then consider "i = j" | "i < j" by linarith
    then show "(?b[j := fadd (?b ! j) ((real j + 1) * 60)]) ! i = fadd (a ! i) ((real i + 1) * 60)"
    proof cases
      case 1
      with post len jl show ?thesis by simp
    next
      case 2
      with pre show ?thesis by simp
    qed
  qed
  have c3: "\<forall>i. Suc j \<le> i \<longrightarrow> (?b[j := fadd (?b ! j) ((real j + 1) * 60)]) ! i = a ! i"
    using post by simp
  show ?case unfolding step using len c2 c3 by simp
qed

lemma addGaps64_nth:
  "length (addGaps64 a) = length a"
  "i < length a \<Longrightarrow> addGaps64 a ! i = fadd (a ! i) ((real i + 1) * 60)"
  using addGaps64_upto [of "length a" a] by (simp_all add: addGaps64_def)

lemma offsets64_table:
  "0 # addGaps64 (prefixSums64 w) = map (offset64 w) [0..<Suc (length w)]"
proof (rule nth_equalityI)
  show "length (0 # addGaps64 (prefixSums64 w)) = length (map (offset64 w) [0..<Suc (length w)])"
    by (simp add: addGaps64_nth(1) prefixSums64_nth(1))
next
  fix i assume "i < length (0 # addGaps64 (prefixSums64 w))"
  then have i: "i \<le> length w" by (simp add: addGaps64_nth(1) prefixSums64_nth(1))
  show "(0 # addGaps64 (prefixSums64 w)) ! i = map (offset64 w) [0..<Suc (length w)] ! i"
  proof (cases i)
    case 0
    then show ?thesis by (simp add: nth_map_upt del: upt_Suc)
  next
    case (Suc i')
    with i have i': "i' < length w" by simp
    have "(0 # addGaps64 (prefixSums64 w)) ! i = fadd (runSum64 w i') ((real i' + 1) * 60)"
      using Suc i' by (simp add: addGaps64_nth(2) prefixSums64_nth)
    also have "\<dots> = offset64 w i" using Suc by simp
    also have "\<dots> = map (offset64 w) [0..<Suc (length w)] ! i"
      using i by (simp add: nth_map_upt del: upt_Suc)
    finally show ?thesis .
  qed
qed

lemma widthStep64_eq:
  "widthStep64 m = widthStep (\<lambda>s. fadd (m s) 40 - 40)"
  by (simp add: widthStep64_def widthStep_def fun_eq_iff)

lemma levelWidths64_eq:
  "levelWidths64 m M = levelWidths (\<lambda>s. fadd (m s) 40 - 40) M"
  by (simp add: levelWidths64_def levelWidths_def widthStep64_eq)

lemma levelOffset64_run:
  "\<exists>w. butlast (levelWidths64 m (assignSeq (buildMap fps))) = map Some w \<and>
       levelOffset64 m fps = Inr (map (offset64 w) [0..<Suc (length w)])"
proof -
  let ?M = "assignSeq (buildMap fps)"
  have wf: "wfMap ?M" using createFileDatas_run [of m fps] by blast
  from offsets_of_widths [OF wf, of "\<lambda>s. fadd (m s) 40 - 40"] obtain w where
    b: "butlast (levelWidths64 m ?M) = map Some w"
    unfolding levelWidths64_eq by blast
  have "levelOffset64 m fps = Inr (0 # addGaps64 (prefixSums64 w))"
    by (simp add: levelOffset64_def offsetsOf64_def b defined_cells_map_Some)
  with b show ?thesis unfolding offsets64_table by blast
qed

lemma sum_take_le:
  assumes "\<forall>v\<in>set w. 0 \<le> (v::real)"
  shows "sum_list (take i w) \<le> sum_list w"
proof -
  have "sum_list w = sum_list (take i w) + sum_list (drop i w)"
    by (metis append_take_drop_id sum_list_append)
  moreover have "0 \<le> sum_list (drop i w)"
    by (rule sum_list_nonneg) (use assms in \<open>auto dest: in_set_dropD\<close>)
  ultimately show ?thesis by simp
qed

lemma onGrid_sum_list:
  "\<forall>v\<in>set w. onGrid k v \<Longrightarrow> onGrid k (sum_list w)"
  by (induction w) (simp_all add: onGrid_add)

lemma runSum64_exact:
  assumes g: "\<forall>v\<in>set w. onGrid k v" and k: "k \<le> emin"
    and b: "sum_list w * 2 ^ k \<le> 2 ^ 53"
  shows "i < length w \<Longrightarrow> runSum64 w i = sum_list (take (Suc i) w)"
proof (induction i)
  case 0
  then show ?case by (cases w) simp_all
next
  case (Suc i)
  from g have nn: "\<forall>v\<in>set w. 0 \<le> v" by (auto dest: onGrid_nonneg)
  from Suc have IH: "runSum64 w i = sum_list (take (Suc i) w)" by simp
  have t: "sum_list (take (Suc (Suc i)) w) = sum_list (take (Suc i) w) + w ! Suc i"
    using Suc.prems by (simp add: take_Suc_conv_app_nth [of "Suc i" w])
  have g1: "onGrid k (sum_list (take (Suc i) w))"
    by (rule onGrid_sum_list) (use g in \<open>auto dest: in_set_takeD\<close>)
  have g2: "onGrid k (w ! Suc i)" using g Suc.prems by simp
  have "sum_list (take (Suc (Suc i)) w) \<le> sum_list w" by (rule sum_take_le [OF nn])
  then have "sum_list (take (Suc (Suc i)) w) * 2 ^ k \<le> sum_list w * 2 ^ k" by simp
  with b have "(sum_list (take (Suc i) w) + w ! Suc i) * 2 ^ k \<le> 2 ^ 53"
    unfolding t by linarith
  from fadd_exact [OF g1 g2 k this] show ?case by (simp add: IH t)
qed

lemma onGrid_mult_nat: "onGrid k (real n * 60)"
  using onGrid_nat [of k "n * 60"] by simp

lemma offset64_exact:
  assumes g: "\<forall>v\<in>set w. onGrid k v" and k: "k \<le> emin"
    and b: "(sum_list w + 60 * real (length w)) * 2 ^ k \<le> 2 ^ 53"
    and i: "i \<le> length w"
  shows "offset64 w i = specOffset w i"
proof (cases i)
  case 0
  then show ?thesis by simp
next
  case (Suc j)
  with i have j: "j < length w" by simp
  from g have nn: "\<forall>v\<in>set w. 0 \<le> v" by (auto dest: onGrid_nonneg)
  have "sum_list w * 2 ^ k \<le> (sum_list w + 60 * real (length w)) * 2 ^ k" by simp
  with b have b1: "sum_list w * 2 ^ k \<le> 2 ^ 53" by linarith
  have r: "runSum64 w j = sum_list (take (Suc j) w)"
    using runSum64_exact [OF g k b1 j] .
  have g1: "onGrid k (sum_list (take (Suc j) w))"
    by (rule onGrid_sum_list) (use g in \<open>auto dest: in_set_takeD\<close>)
  have g2: "onGrid k ((real j + 1) * 60)"
    using onGrid_mult_nat [of k "Suc j"] by (simp add: add.commute)
  have "sum_list (take (Suc j) w) \<le> sum_list w" by (rule sum_take_le [OF nn])
  moreover have "(real j + 1) * 60 \<le> 60 * real (length w)" using j by simp
  ultimately have "sum_list (take (Suc j) w) + (real j + 1) * 60
      \<le> sum_list w + 60 * real (length w)" by linarith
  then have "(sum_list (take (Suc j) w) + (real j + 1) * 60) * 2 ^ k
      \<le> (sum_list w + 60 * real (length w)) * 2 ^ k" by simp
  with b have "(sum_list (take (Suc j) w) + (real j + 1) * 60) * 2 ^ k \<le> 2 ^ 53" by linarith
  from fadd_exact [OF g1 g2 k this]
  have "offset64 w i = sum_list (take (Suc j) w) + (real j + 1) * 60"
    by (simp add: Suc r)
  also have "\<dots> = specOffset w i"
    using specOffset_sum [OF i] Suc by (simp add: algebra_simps)
  finally show ?thesis .
qed

lemma nodeFor_existing:
  "str_join CHR ''/'' (take (index + 1) paths) \<in> set (keys M) \<Longrightarrow>
   nodeFor paths index M = (M, str_join CHR ''/'' (take (index + 1) paths))"
  by (simp add: nodeFor_def Let_def)

lemma children_link_fold:
  "\<exists>added. children (heap (fold (link files) js M) k) = children (heap M k) @ added"
proof (induction js arbitrary: M)
  case Nil
  then show ?case by simp
next
  case (Cons j js)
  from Cons [of "link files j M"] obtain a where
    a: "children (heap (fold (link files) js (link files j M)) k) =
        children (heap (link files j M) k) @ a" by blast
  have "\<exists>b. children (heap (link files j M) k) = children (heap M k) @ b"
    by (simp add: children_link)
  then obtain b where b: "children (heap (link files j M) k) = children (heap M k) @ b"
    by blast
  show ?case by (simp add: a b)
qed

lemma addPath_keeps:
  assumes wf: "wfMap M" and k: "k \<in> set (keys M)"
  shows "k \<in> set (keys (addPath fp M))"
    and "ftype (heap (addPath fp M) k) = ftype (heap M k)"
    and "path (heap (addPath fp M) k) = path (heap M k)"
    and "base (heap (addPath fp M) k) = base (heap M k)"
    and "level (heap (addPath fp M) k) = level (heap M k)"
    and "\<exists>added. children (heap (addPath fp M) k) = children (heap M k) @ added"
proof -
  let ?n = "length (segs fp)"
  let ?M1 = "fold (ensure (segs fp)) [0..<?n] M"
  from wf have nok: "nodesOK M" by (simp add: wfMap_def)
  from ensure_fold [OF nok le_refl, of fp] k
  have e: "heap ?M1 k = heap M k" by blast
  show "k \<in> set (keys (addPath fp M))" using addPath_wf(2) [OF wf, of fp] k by simp
  show "ftype (heap (addPath fp M) k) = ftype (heap M k)"
    and "path (heap (addPath fp M) k) = path (heap M k)"
    and "base (heap (addPath fp M) k) = base (heap M k)"
    and "level (heap (addPath fp M) k) = level (heap M k)"
    unfolding addPath_eq by (simp_all add: e)
  show "\<exists>added. children (heap (addPath fp M) k) = children (heap M k) @ added"
    unfolding addPath_eq using children_link_fold [of _ _ ?M1 k] by (simp add: e)
qed

lemma buildMap_keeps:
  assumes k: "k \<in> set (keys (buildMap fps))"
  shows "k \<in> set (keys (buildMap (fps @ later))) \<and>
         ftype (heap (buildMap (fps @ later)) k) = ftype (heap (buildMap fps) k) \<and>
         path (heap (buildMap (fps @ later)) k) = path (heap (buildMap fps) k) \<and>
         base (heap (buildMap (fps @ later)) k) = base (heap (buildMap fps) k) \<and>
         level (heap (buildMap (fps @ later)) k) = level (heap (buildMap fps) k) \<and>
         (\<exists>added. children (heap (buildMap (fps @ later)) k) =
                    children (heap (buildMap fps) k) @ added)"
proof (induction later rule: rev_induct)
  case Nil
  with k show ?case by simp
next
  case (snoc fp later)
  let ?M = "buildMap (fps @ later)"
  from snoc have km: "k \<in> set (keys ?M)" by simp
  have s: "buildMap (fps @ later @ [fp]) = addPath fp ?M"
    using buildMap_snoc [of "fps @ later" fp] by simp
  note K = addPath_keeps [OF wfMap_buildMap km, of fp]
  from snoc obtain a where a: "children (heap ?M k) = children (heap (buildMap fps) k) @ a"
    by blast
  from K(6) obtain b where b: "children (heap (addPath fp ?M) k) = children (heap ?M k) @ b"
    by blast
  have "\<exists>added. children (heap (addPath fp ?M) k) = children (heap (buildMap fps) k) @ added"
    by (simp add: a b)
  with snoc K(1-5) show ?case unfolding s by simp
qed

lemma shared_prefix_children:
  assumes fp: "fp \<in> set fps" and i: "Suc i < length (segs fp)"
  shows "prefixAt (segs fp) (Suc i) \<in>
           set (children (heap (buildMap fps) (prefixAt (segs fp) i)))"
proof -
  let ?k = "prefixAt (segs fp) (Suc i)"
  have "?k \<in> set (prefixes fp)" using i by (simp add: set_prefixes)
  with fp have k: "?k \<in> set (keys (buildMap fps))" by (auto simp: set_keys_buildMap)
  have d: "0 < depth ?k" using depth_prefixAt [of "Suc i" fp] i by simp
  have dn: "dirname ?k = prefixAt (segs fp) i" using dirname_prefixAt [of i fp] i by simp
  from wfMap_buildMap [of fps] k d have "?k \<in> set (children (heap (buildMap fps) (dirname ?k)))"
    by (simp add: wfMap_def linkedOn_def)
  then show ?thesis by (simp only: dn)
qed




section \<open>Properties of the specification\<close>

text \<open>
  The function \<open>createFileDatas\<close> returns for every measure and every list of paths: the
  fuel handed to \<open>setFilePos\<close> always suffices and no hole of the width array is ever read
  (lemma \<open>createFileDatas_total\<close>). The statements below that start from
  \<open>createFileDatas measureTextWidth filePaths = Inr (M, levelOffset)\<close> therefore speak about
  every run; \<open>M\<close> is the store of the returned files and \<open>levelOffset\<close> the returned table.
\<close>

text \<open>
  C4, as stated, fails: a node's kind is fixed when the node is created and never revised.
  In \<open>[''a/b'', ''a'']\<close> the path \<open>a\<close> is a complete input path, yet its node was created as
  the directory of \<open>a/b\<close> and stays \<open>Dir\<close>; in the opposite order it is \<open>Js\<close>.
\<close>

theorem C4_counterexample:
  "''a'' \<in> set (keys (buildMap [''a/b'', ''a''])) \<and> ''a'' \<in> set [''a/b'', ''a''] \<and>
   ftype (heap (buildMap [''a/b'', ''a'']) ''a'') = Dir \<and>
   ftype (heap (buildMap [''a'', ''a/b'']) ''a'') = Js"
  by code_simp

text \<open>
  C4, amended: a node's kind is \<open>Js\<close> (Leaf) if and only if the first input path, in the order
  of the list, that has the node's path among its prefixes is the node's path itself;
  otherwise it is \<open>Dir\<close>. In particular a Leaf's path always is a complete input path.
\<close>

theorem C4_kind_by_first_use:
  "k \<in> set (keys (buildMap filePaths)) \<Longrightarrow>
   (ftype (heap (buildMap filePaths) k) = Js \<longleftrightarrow>
      find (\<lambda>fp. k \<in> set (prefixes fp)) filePaths = Some k) \<and>
   (ftype (heap (buildMap filePaths) k) \<noteq> Js \<longrightarrow> ftype (heap (buildMap filePaths) k) = Dir) \<and>
   (ftype (heap (buildMap filePaths) k) = Js \<longrightarrow> k \<in> set filePaths)"
proof -
  assume k: "k \<in> set (keys (buildMap filePaths))"
  have "find (\<lambda>fp. k \<in> set (prefixes fp)) filePaths = Some k \<Longrightarrow> k \<in> set filePaths"
    by (auto simp: find_Some_iff)
  then show ?thesis using ftype_buildMap [OF k] by auto
qed

theorem C4_witness:
  "''a'' \<in> set (keys (buildMap [''a/b'', ''a''])) \<and>
   (ftype (heap (buildMap [''a/b'', ''a'']) ''a'') = Js \<longleftrightarrow>
      find (\<lambda>fp. ''a'' \<in> set (prefixes fp)) [''a/b'', ''a''] = Some ''a'') \<and>
   ftype (heap (buildMap [''a/b'', ''a'']) ''a'') \<noteq> Js \<and>
   ftype (heap (buildMap [''a/b'', ''a'']) ''a'') = Dir \<and>
   ftype (heap (buildMap [''a'', ''a/b'']) ''a'') = Js \<and> ''a'' \<in> set [''a'', ''a/b'']"
proof -
  have k: "''a'' \<in> set (keys (buildMap [''a/b'', ''a'']))" by code_simp
  have k': "''a'' \<in> set (keys (buildMap [''a'', ''a/b'']))" by code_simp
  have n: "ftype (heap (buildMap [''a/b'', ''a'']) ''a'') \<noteq> Js" by code_simp
  have j: "ftype (heap (buildMap [''a'', ''a/b'']) ''a'') = Js" by code_simp
  show ?thesis
    using C4_kind_by_first_use [OF k] C4_kind_by_first_use [OF k'] k n j by blast
qed

text \<open>
  C1. After layout the rows (sets of y-coordinates) occupied by two distinct sibling subtrees
  are disjoint, and so are the rows of the subtrees of two distinct depth-0 nodes.
\<close>

theorem C1_no_overlap:
  assumes "createFileDatas measureTextWidth filePaths = Inr (M, levelOffset)"
  shows "(k \<in> set (keys M) \<and> a \<in> set (children (heap M k)) \<and> b \<in> set (children (heap M k)) \<and>
          a \<noteq> b \<longrightarrow>
            (\<lambda>u. y_pos (heap M u)) ` subtree M a \<inter> (\<lambda>u. y_pos (heap M u)) ` subtree M b = {}) \<and>
         (r \<in> set (keys M) \<and> level (heap M r) = 0 \<and> r' \<in> set (keys M) \<and> level (heap M r') = 0 \<and>
          r \<noteq> r' \<longrightarrow>
            (\<lambda>u. y_pos (heap M u)) ` subtree M r \<inter> (\<lambda>u. y_pos (heap M u)) ` subtree M r' = {})"
proof -
  have y: "(\<lambda>u. y_pos (heap M u)) = yOf M" by (simp add: yOf_def fun_eq_iff)
  show ?thesis
    unfolding y
    using siblings_disjoint_rows [OF assms, of k a b] roots_disjoint_rows [OF assms, of r r']
    by blast
qed

theorem C1_witness:
  "''a'' \<in> set (keys (fst (projr (createFileDatas charWidth [''a/x'', ''a/y'', ''b''])))) \<and>
   ''a/x'' \<in> set (children (heap (fst (projr (createFileDatas charWidth [''a/x'', ''a/y'', ''b'']))) ''a'')) \<and>
   ''a/y'' \<in> set (children (heap (fst (projr (createFileDatas charWidth [''a/x'', ''a/y'', ''b'']))) ''a'')) \<and>
   ''a/x'' \<noteq> ''a/y'' \<and>
   (\<lambda>u. y_pos (heap (fst (projr (createFileDatas charWidth [''a/x'', ''a/y'', ''b'']))) u)) `
      subtree (fst (projr (createFileDatas charWidth [''a/x'', ''a/y'', ''b'']))) ''a/x'' \<inter>
   (\<lambda>u. y_pos (heap (fst (projr (createFileDatas charWidth [''a/x'', ''a/y'', ''b'']))) u)) `
      subtree (fst (projr (createFileDatas charWidth [''a/x'', ''a/y'', ''b'']))) ''a/y'' = {} \<and>
   ''b'' \<in> set (keys (fst (projr (createFileDatas charWidth [''a/x'', ''a/y'', ''b''])))) \<and>
   level (heap (fst (projr (createFileDatas charWidth [''a/x'', ''a/y'', ''b'']))) ''a'') = 0 \<and>
   level (heap (fst (projr (createFileDatas charWidth [''a/x'', ''a/y'', ''b'']))) ''b'') = 0 \<and>
   ''a'' \<noteq> ''b'' \<and>
   (\<lambda>u. y_pos (heap (fst (projr (createFileDatas charWidth [''a/x'', ''a/y'', ''b'']))) u)) `
      subtree (fst (projr (createFileDatas charWidth [''a/x'', ''a/y'', ''b'']))) ''a'' \<inter>
   (\<lambda>u. y_pos (heap (fst (projr (createFileDatas charWidth [''a/x'', ''a/y'', ''b'']))) u)) `
      subtree (fst (projr (createFileDatas charWidth [''a/x'', ''a/y'', ''b'']))) ''b'' = {}"
proof -
  let ?R = "fst (projr (createFileDatas charWidth [''a/x'', ''a/y'', ''b'']))"
  have k: "''a'' \<in> set (keys ?R)" and b: "''b'' \<in> set (keys ?R)"
    and c1: "''a/x'' \<in> set (children (heap ?R ''a''))"
    and c2: "''a/y'' \<in> set (children (heap ?R ''a''))"
    and l1: "level (heap ?R ''a'') = 0" and l2: "level (heap ?R ''b'') = 0"
    by code_simp+
  have n1: "''a/x'' \<noteq> ''a/y''" and n2: "''a'' \<noteq> ''b''" by simp_all
  show ?thesis
    using C1_no_overlap [OF result_eq, where k = "''a''" and a = "''a/x''" and b = "''a/y''"
        and r = "''a''" and r' = "''b''"]
      k b c1 c2 l1 l2 n1 n2
    by blast
qed

text \<open>
  C3, as stated, fails: the parent is not centred on its children. For \<open>[''a/x'', ''a/y'']\<close>
  the children of \<open>a\<close> sit at \<open>y = 0\<close> and \<open>y = 48\<close>, whose midpoint is \<open>24\<close>, and \<open>a\<close> sits
  at \<open>y = 0\<close>.
\<close>

theorem C3_counterexample:
  "\<not> isl (createFileDatas charWidth [''a/x'', ''a/y'']) \<and>
   ''a'' \<in> set (keys (fst (projr (createFileDatas charWidth [''a/x'', ''a/y''])))) \<and>
   children (heap (fst (projr (createFileDatas charWidth [''a/x'', ''a/y'']))) ''a'') = [''a/x'', ''a/y''] \<and>
   yOf (fst (projr (createFileDatas charWidth [''a/x'', ''a/y'']))) ''a'' \<noteq>
     (Min (yOf (fst (projr (createFileDatas charWidth [''a/x'', ''a/y''])))
             ` set (children (heap (fst (projr (createFileDatas charWidth [''a/x'', ''a/y'']))) ''a''))) +
      Max (yOf (fst (projr (createFileDatas charWidth [''a/x'', ''a/y''])))
             ` set (children (heap (fst (projr (createFileDatas charWidth [''a/x'', ''a/y'']))) ''a'')))) / 2"
proof -
  let ?R = "fst (projr (createFileDatas charWidth [''a/x'', ''a/y'']))"
  have ok: "\<not> isl (createFileDatas charWidth [''a/x'', ''a/y''])" by code_simp
  have k: "''a'' \<in> set (keys ?R)" by code_simp
  have c: "children (heap ?R ''a'') = [''a/x'', ''a/y'']" by code_simp
  have y: "yOf ?R ''a'' = 0" "yOf ?R ''a/x'' = 0" "yOf ?R ''a/y'' = 48" by code_simp+
  show ?thesis using ok k by (simp add: c y)
qed

text \<open>
  C3, amended: for every node with at least one child, after layout the parent's y-coordinate
  is the y-coordinate of its first child in display order (the child with \<open>seq = 0\<close>), which is
  the smallest y among its direct children; no child lies above its parent.
\<close>

theorem C3_parent_at_first_child:
  assumes "createFileDatas measureTextWidth filePaths = Inr (M, levelOffset)"
    and "k \<in> set (keys M)" and "children (heap M k) \<noteq> []"
  shows "y_pos (heap M k) = Min ((\<lambda>c. y_pos (heap M c)) ` set (children (heap M k))) \<and>
         (\<exists>c\<in>set (children (heap M k)). seq (heap M c) = 0 \<and> y_pos (heap M c) = y_pos (heap M k)) \<and>
         (\<forall>c\<in>set (children (heap M k)). seq (heap M c) = 0 \<longrightarrow> y_pos (heap M c) = y_pos (heap M k))"
proof -
  have y: "(\<lambda>c. y_pos (heap M c)) = yOf M" by (simp add: yOf_def fun_eq_iff)
  show ?thesis
    using parent_row(1,2,4) [OF assms]
    unfolding y by (simp add: yOf_def seqOf_def)
qed

theorem C3_witness:
  "''a'' \<in> set (keys (fst (projr (createFileDatas charWidth [''a/x'', ''a/y''])))) \<and>
   children (heap (fst (projr (createFileDatas charWidth [''a/x'', ''a/y'']))) ''a'') \<noteq> [] \<and>
   y_pos (heap (fst (projr (createFileDatas charWidth [''a/x'', ''a/y'']))) ''a'') =
     Min ((\<lambda>c. y_pos (heap (fst (projr (createFileDatas charWidth [''a/x'', ''a/y'']))) c)) `
       set (children (heap (fst (projr (createFileDatas charWidth [''a/x'', ''a/y'']))) ''a''))) \<and>
   ''a/x'' \<in> set (children (heap (fst (projr (createFileDatas charWidth [''a/x'', ''a/y'']))) ''a'')) \<and>
   seq (heap (fst (projr (createFileDatas charWidth [''a/x'', ''a/y'']))) ''a/x'') = 0 \<and>
   y_pos (heap (fst (projr (createFileDatas charWidth [''a/x'', ''a/y'']))) ''a/x'') =
     y_pos (heap (fst (projr (createFileDatas charWidth [''a/x'', ''a/y'']))) ''a'')"
proof -
  let ?R = "fst (projr (createFileDatas charWidth [''a/x'', ''a/y'']))"
  have k: "''a'' \<in> set (keys ?R)" by code_simp
  have c: "children (heap ?R ''a'') \<noteq> []" by code_simp
  have x: "''a/x'' \<in> set (children (heap ?R ''a''))" by code_simp
  have s: "seq (heap ?R ''a/x'') = 0" by code_simp
  show ?thesis
    using C3_parent_at_first_child [OF result_eq k c] k c x s by blast
qed

text \<open>
  C10. The layout returns for every list of input paths (lemma \<open>createFileDatas_total\<close>).
  In its result every node has non-negative coordinates; a node has a \<open>parent\<close> exactly when
  its depth is not \<open>0\<close>, the parent is a node of the map that lists it among its \<open>children\<close>,
  and no node lies above its parent (its \<open>y\<close> is at least the parent's), read off the
  \<open>parent\<close> field as well as off the \<open>children\<close> lists. When the list of inputs is not empty,
  the depth-0 node that is placed first lies at \<open>(0, 0)\<close>.
\<close>

theorem C10_coordinates:
  assumes "createFileDatas measureTextWidth filePaths = Inr (M, levelOffset)"
  shows "(k \<in> set (keys M) \<longrightarrow>
            0 \<le> x_pos (heap M k) \<and> 0 \<le> y_pos (heap M k) \<and>
            (parent (heap M k) = None \<longleftrightarrow> level (heap M k) = 0) \<and>
            (\<forall>p. parent (heap M k) = Some p \<longrightarrow>
               p \<in> set (keys M) \<and> k \<in> set (children (heap M p)) \<and>
               y_pos (heap M p) \<le> y_pos (heap M k)) \<and>
            (\<forall>c\<in>set (children (heap M k)). y_pos (heap M k) \<le> y_pos (heap M c))) \<and>
         (filePaths \<noteq> [] \<longrightarrow>
            rootFiles M \<noteq> [] \<and> hd (rootFiles M) \<in> set (keys M) \<and>
            level (heap M (hd (rootFiles M))) = 0 \<and>
            x_pos (heap M (hd (rootFiles M))) = 0 \<and> y_pos (heap M (hd (rootFiles M))) = 0)"
proof -
  note F = result_facts [OF assms]
  have rows: "\<forall>c\<in>set (children (heap M k)). yOf M k \<le> yOf M c" if "k \<in> set (keys M)" for k
    using F(6) [OF that] by (simp add: nodeLaid_def)
  have "0 \<le> x_pos (heap M k) \<and> 0 \<le> y_pos (heap M k) \<and>
      (parent (heap M k) = None \<longleftrightarrow> level (heap M k) = 0) \<and>
      (\<forall>p. parent (heap M k) = Some p \<longrightarrow>
         p \<in> set (keys M) \<and> k \<in> set (children (heap M p)) \<and>
         y_pos (heap M p) \<le> y_pos (heap M k)) \<and>
      (\<forall>c\<in>set (children (heap M k)). y_pos (heap M k) \<le> y_pos (heap M c))"
    if k: "k \<in> set (keys M)"
  proof -
    note P = parent_of_result [OF assms k]
    have "0 \<le> xOf M k"
      using node_x [OF assms k] offsets_nonneg [OF assms F(5) [OF k]] by simp
    moreover have "0 \<le> yOf M k" using F(7) [OF k] .
    moreover have "parent (heap M k) = None \<longleftrightarrow> level (heap M k) = 0"
      using P(1) by simp
    moreover have "p \<in> set (keys M) \<and> k \<in> set (children (heap M p)) \<and> yOf M p \<le> yOf M k"
      if p: "parent (heap M k) = Some p" for p
    proof -
      from p P(1) have l: "0 < level (heap M k)" and d: "p = dirname k"
        by (simp_all split: if_splits)
      from P(2) [OF l] d have m: "p \<in> set (keys M)" "k \<in> set (children (heap M p))"
        by simp_all
      with rows [OF m(1)] show ?thesis by simp
    qed
    moreover note rows [OF k]
    ultimately show ?thesis by (simp add: xOf_def yOf_def)
  qed
  moreover have "rootFiles M \<noteq> [] \<and> hd (rootFiles M) \<in> set (keys M) \<and>
      level (heap M (hd (rootFiles M))) = 0 \<and>
      x_pos (heap M (hd (rootFiles M))) = 0 \<and> y_pos (heap M (hd (rootFiles M))) = 0"
    if "filePaths \<noteq> []"
    using first_root [OF assms that] by (simp add: xOf_def yOf_def)
  ultimately show ?thesis by blast
qed

theorem C10_witness:
  "''a/y'' \<in> set (keys (fst (projr (createFileDatas charWidth [''a/x'', ''a/y''])))) \<and>
   0 \<le> x_pos (heap (fst (projr (createFileDatas charWidth [''a/x'', ''a/y'']))) ''a/y'') \<and>
   0 \<le> y_pos (heap (fst (projr (createFileDatas charWidth [''a/x'', ''a/y'']))) ''a/y'') \<and>
   parent (heap (fst (projr (createFileDatas charWidth [''a/x'', ''a/y'']))) ''a/y'') = Some ''a'' \<and>
   y_pos (heap (fst (projr (createFileDatas charWidth [''a/x'', ''a/y'']))) ''a'')
     \<le> y_pos (heap (fst (projr (createFileDatas charWidth [''a/x'', ''a/y'']))) ''a/y'') \<and>
   [''a/x'', ''a/y''] \<noteq> [] \<and>
   hd (rootFiles (fst (projr (createFileDatas charWidth [''a/x'', ''a/y''])))) = ''a'' \<and>
   x_pos (heap (fst (projr (createFileDatas charWidth [''a/x'', ''a/y'']))) ''a'') = 0 \<and>
   y_pos (heap (fst (projr (createFileDatas charWidth [''a/x'', ''a/y'']))) ''a'') = 0"
proof -
  let ?R = "fst (projr (createFileDatas charWidth [''a/x'', ''a/y'']))"
  have k: "''a/y'' \<in> set (keys ?R)" by code_simp
  have p: "parent (heap ?R ''a/y'') = Some ''a''" by code_simp
  have h: "hd (rootFiles ?R) = ''a''" by code_simp
  have n: "[''a/x'', ''a/y''] \<noteq> ([] :: string list)" by simp
  show ?thesis
    using C10_coordinates [OF result_eq, where k = "''a/y''" and measureTextWidth = charWidth
        and filePaths = "[''a/x'', ''a/y'']"] k p h n
    by simp
qed

text \<open>
  C5. For every node the ranks (\<open>seq\<close>) of its children are the numbers \<open>0, \<dots>, n - 1\<close>, each
  used once; every \<open>Dir\<close> child is ranked before every \<open>Js\<close> child; and among children of the
  same kind a lower rank means a name that is not greater under the plain order of strings.
\<close>

theorem C5_ordering_law:
  assumes "createFileDatas measureTextWidth filePaths = Inr (M, levelOffset)"
    and "k \<in> set (keys M)"
  shows "(\<lambda>c. seq (heap M c)) ` set (children (heap M k)) = {0..<length (children (heap M k))} \<and>
         inj_on (\<lambda>c. seq (heap M c)) (set (children (heap M k))) \<and>
         (\<forall>a\<in>set (children (heap M k)). \<forall>b\<in>set (children (heap M k)).
            (ftype (heap M a) = Dir \<and> ftype (heap M b) = Js \<longrightarrow> seq (heap M a) < seq (heap M b)) \<and>
            (ftype (heap M a) = ftype (heap M b) \<and> seq (heap M a) < seq (heap M b) \<longrightarrow>
               base (heap M a) \<le> base (heap M b)))"
proof -
  note F = result_facts [OF assms(1)]
  have s: "(\<lambda>c. seq (heap M c)) = seqOf M" by (simp add: seqOf_def fun_eq_iff)
  have "seqOf M ` set (children (heap M k)) = {0..<length (children (heap M k))}"
    using child_ranks [OF F(1,2) assms(2)] .
  moreover have "inj_on (seqOf M) (set (children (heap M k)))"
    using child_rank_inj [OF F(1,2) assms(2)] by (auto simp: inj_on_def)
  moreover have "\<forall>a\<in>set (children (heap M k)). \<forall>b\<in>set (children (heap M k)).
      (ftype (heap M a) = Dir \<and> ftype (heap M b) = Js \<longrightarrow> seqOf M a < seqOf M b) \<and>
      (ftype (heap M a) = ftype (heap M b) \<and> seqOf M a < seqOf M b \<longrightarrow>
         base (heap M a) \<le> base (heap M b))"
    using ordering_law [OF assms] by (meson less_imp_le)
  ultimately show ?thesis unfolding s by (simp add: seqOf_def)
qed

theorem C5_witness:
  "''a'' \<in> set (keys (fst (projr (createFileDatas charWidth [''a/x'', ''a/d/z''])))) \<and>
   ''a/d'' \<in> set (children (heap (fst (projr (createFileDatas charWidth [''a/x'', ''a/d/z'']))) ''a'')) \<and>
   ''a/x'' \<in> set (children (heap (fst (projr (createFileDatas charWidth [''a/x'', ''a/d/z'']))) ''a'')) \<and>
   ftype (heap (fst (projr (createFileDatas charWidth [''a/x'', ''a/d/z'']))) ''a/d'') = Dir \<and>
   ftype (heap (fst (projr (createFileDatas charWidth [''a/x'', ''a/d/z'']))) ''a/x'') = Js \<and>
   seq (heap (fst (projr (createFileDatas charWidth [''a/x'', ''a/d/z'']))) ''a/d'')
     < seq (heap (fst (projr (createFileDatas charWidth [''a/x'', ''a/d/z'']))) ''a/x'') \<and>
   ''a'' \<in> set (keys (fst (projr (createFileDatas charWidth [''a/y'', ''a/x''])))) \<and>
   ''a/x'' \<in> set (children (heap (fst (projr (createFileDatas charWidth [''a/y'', ''a/x'']))) ''a'')) \<and>
   ''a/y'' \<in> set (children (heap (fst (projr (createFileDatas charWidth [''a/y'', ''a/x'']))) ''a'')) \<and>
   ftype (heap (fst (projr (createFileDatas charWidth [''a/y'', ''a/x'']))) ''a/x'') =
     ftype (heap (fst (projr (createFileDatas charWidth [''a/y'', ''a/x'']))) ''a/y'') \<and>
   seq (heap (fst (projr (createFileDatas charWidth [''a/y'', ''a/x'']))) ''a/x'')
     < seq (heap (fst (projr (createFileDatas charWidth [''a/y'', ''a/x'']))) ''a/y'') \<and>
   base (heap (fst (projr (createFileDatas charWidth [''a/y'', ''a/x'']))) ''a/x'')
     \<le> base (heap (fst (projr (createFileDatas charWidth [''a/y'', ''a/x'']))) ''a/y'')"
proof -
  let ?R = "fst (projr (createFileDatas charWidth [''a/x'', ''a/d/z'']))"
  let ?S = "fst (projr (createFileDatas charWidth [''a/y'', ''a/x'']))"
  note R = result_fields [OF result_eq [of charWidth "[''a/x'', ''a/d/z'']"]]
  note S = result_fields [OF result_eq [of charWidth "[''a/y'', ''a/x'']"]]
  have k: "''a'' \<in> set (keys ?R)"
    and c: "''a/d'' \<in> set (children (heap ?R ''a''))" "''a/x'' \<in> set (children (heap ?R ''a''))"
    and t: "ftype (heap ?R ''a/d'') = Dir" "ftype (heap ?R ''a/x'') = Js"
    unfolding R by code_simp+
  have k': "''a'' \<in> set (keys ?S)"
    and c': "''a/x'' \<in> set (children (heap ?S ''a''))" "''a/y'' \<in> set (children (heap ?S ''a''))"
    and t': "ftype (heap ?S ''a/x'') = ftype (heap ?S ''a/y'')"
    and s': "seq (heap ?S ''a/x'') < seq (heap ?S ''a/y'')"
    unfolding S by code_simp+
  show ?thesis
    using C5_ordering_law [OF result_eq k] C5_ordering_law [OF result_eq k'] k c t k' c' t' s'
    by simp
qed

text \<open>
  C2, as stated, fails: the roots are not sorted. For \<open>[''b.js'', ''a/x.js'']\<close> the depth-0
  nodes are the leaf \<open>b.js\<close> and the directory \<open>a\<close>, and the leaf is ranked first.
\<close>

theorem C2_counterexample:
  "\<not> isl (createFileDatas charWidth [''b.js'', ''a/x.js'']) \<and>
   ''a'' \<in> set (keys (fst (projr (createFileDatas charWidth [''b.js'', ''a/x.js''])))) \<and>
   ''b.js'' \<in> set (keys (fst (projr (createFileDatas charWidth [''b.js'', ''a/x.js''])))) \<and>
   level (heap (fst (projr (createFileDatas charWidth [''b.js'', ''a/x.js'']))) ''a'') = 0 \<and>
   level (heap (fst (projr (createFileDatas charWidth [''b.js'', ''a/x.js'']))) ''b.js'') = 0 \<and>
   ftype (heap (fst (projr (createFileDatas charWidth [''b.js'', ''a/x.js'']))) ''a'') = Dir \<and>
   ftype (heap (fst (projr (createFileDatas charWidth [''b.js'', ''a/x.js'']))) ''b.js'') = Js \<and>
   seq (heap (fst (projr (createFileDatas charWidth [''b.js'', ''a/x.js'']))) ''b.js'') = 0 \<and>
   seq (heap (fst (projr (createFileDatas charWidth [''b.js'', ''a/x.js'']))) ''a'') = 1"
proof -
  note R = result_fields [OF result_eq [of charWidth "[''b.js'', ''a/x.js'']"]]
  have "\<not> isl (createFileDatas charWidth [''b.js'', ''a/x.js''])"
    using createFileDatas_total [of charWidth "[''b.js'', ''a/x.js'']"] by auto
  moreover have "''a'' \<in> set (keys (buildMap [''b.js'', ''a/x.js'']))"
    "''b.js'' \<in> set (keys (buildMap [''b.js'', ''a/x.js'']))"
    "level (heap (buildMap [''b.js'', ''a/x.js'']) ''a'') = 0"
    "level (heap (buildMap [''b.js'', ''a/x.js'']) ''b.js'') = 0"
    "ftype (heap (buildMap [''b.js'', ''a/x.js'']) ''a'') = Dir"
    "ftype (heap (buildMap [''b.js'', ''a/x.js'']) ''b.js'') = Js"
    "seq (heap (assignSeq (buildMap [''b.js'', ''a/x.js''])) ''b.js'') = 0"
    "seq (heap (assignSeq (buildMap [''b.js'', ''a/x.js''])) ''a'') = 1"
    by code_simp+
  ultimately show ?thesis unfolding R by simp
qed

text \<open>
  C2, amended: the depth-0 nodes are ranked in the order in which they were inserted into the
  map, that is, by the first appearance of their name as the first segment of an input path.
  The depth-0 keys, in map order, are the distinct first segments of the inputs in order of
  first appearance, and their \<open>seq\<close> values are \<open>0, 1, 2, \<dots>\<close> along that list; kind and name
  play no part.
\<close>

theorem C2_roots_by_first_appearance:
  assumes "createFileDatas measureTextWidth filePaths = Inr (M, levelOffset)"
  shows "filter (\<lambda>k. level (heap M k) = 0) (keys M) =
           firstSeen (map (\<lambda>fp. hd (str_split CHR ''/'' fp)) filePaths) \<and>
         map (\<lambda>k. seq (heap M k)) (firstSeen (map (\<lambda>fp. hd (str_split CHR ''/'' fp)) filePaths)) =
           [0..<length (firstSeen (map (\<lambda>fp. hd (str_split CHR ''/'' fp)) filePaths))]"
proof -
  have s: "(\<lambda>k. seq (heap M k)) = seqOf M" by (simp add: seqOf_def fun_eq_iff)
  show ?thesis
    using roots_of_result [OF assms]
    unfolding s by (simp add: rootsOf_def segs_def)
qed

theorem C2_witness:
  "filter (\<lambda>k. level (heap (fst (projr (createFileDatas charWidth [''b'', ''a/x'', ''b'']))) k) = 0)
     (keys (fst (projr (createFileDatas charWidth [''b'', ''a/x'', ''b''])))) = [''b'', ''a''] \<and>
   map (\<lambda>k. seq (heap (fst (projr (createFileDatas charWidth [''b'', ''a/x'', ''b'']))) k))
     [''b'', ''a''] = [0, 1]"
proof -
  have "firstSeen (map (\<lambda>fp. hd (str_split CHR ''/'' fp)) [''b'', ''a/x'', ''b'']) = [''b'', ''a'']"
    by code_simp
  then show ?thesis
    using C2_roots_by_first_appearance [OF result_eq, of charWidth "[''b'', ''a/x'', ''b'']"]
    by (simp add: upt_rec)
qed




text \<open>
  C7, as stated, fails in the arithmetic of the program. The code adds the widths up first
  and the gaps afterwards; the recurrence adds width and gap in turn; with rounded sums the
  two orders give different numbers. For the one path \<open>a/b/c\<close> and a measure that returns the
  binary64 numbers nearest to \<open>62.3\<close> and \<open>154.9\<close> (\<open>decimalWidth\<close>), the widths are the binary64
  numbers nearest to \<open>102.3\<close> and \<open>194.9\<close>; the program's table ends in the binary64 number
  nearest to \<open>417.2\<close>, the recurrence computed in binary64 ends in the next one,
  \<open>417.20000000000005\<close>, and the recurrence computed exactly ends in a number between them
  that is not a binary64 number.
\<close>

theorem C7_counterexample:
  "butlast (levelWidths64 decimalWidth (assignSeq (buildMap [''a/b/c'']))) =
     [Some (7198722529375027 / 70368744177664), Some (6857434120113357 / 35184372088832)] \<and>
   levelOffset64 decimalWidth [''a/b/c''] =
     Inr [0, 2855211795008717 / 17592186044416, 7339460017730355 / 17592186044416] \<and>
   map (specOffset64 [7198722529375027 / 70368744177664, 6857434120113357 / 35184372088832])
     [0, 1, 2] =
     [0, 2855211795008717 / 17592186044416, 1834865004432589 / 4398046511104] \<and>
   map (specOffset [7198722529375027 / 70368744177664, 6857434120113357 / 35184372088832])
     [0, 1, 2] =
     [0, 11420847180034867 / 70368744177664, 29357840070921421 / 70368744177664] \<and>
   (7339460017730355 / 17592186044416 :: real) \<noteq> 1834865004432589 / 4398046511104 \<and>
   (7339460017730355 / 17592186044416 :: real) \<noteq> 29357840070921421 / 70368744177664"
  by code_simp

text \<open>
  C7, amended: the table that the program returns is \<open>offset 0 = 0\<close> and
  \<open>offset (i + 1) = (width 0 \<oplus> \<dots> \<oplus> width i) \<oplus> (i + 1) * 60\<close>, where \<open>\<oplus>\<close> is the rounded addition
  and the widths are summed from the left (functions \<open>runSum64\<close> and \<open>offset64\<close>); \<open>width\<close> is the
  list of column widths without the last one. Whenever all widths are multiples of one
  \<open>2 ^ - k\<close> (whole numbers for \<open>k = 0\<close>) and the sum of all widths and gaps stays below
  \<open>2 ^ (53 - k)\<close>, no sum is rounded: then the table is the table of the recurrence
  \<open>offset (i + 1) = offset i + width i + 60\<close> (function \<open>specOffset\<close>), neighbouring offsets
  differ by at least \<open>60\<close>, and the table is strictly increasing. Without that condition the
  table can differ from the recurrence in the last place.
\<close>

theorem C7_offset_table_rounded:
  "\<exists>width.
     butlast (levelWidths64 measureTextWidth (assignSeq (buildMap filePaths))) = map Some width \<and>
     levelOffset64 measureTextWidth filePaths =
       Inr (map (offset64 width) [0..<Suc (length width)]) \<and>
     (\<forall>k. k \<le> 1074 \<and> (\<forall>v\<in>set width. onGrid k v) \<and>
          (sum_list width + 60 * real (length width)) * 2 ^ k \<le> 2 ^ 53 \<longrightarrow>
        map (offset64 width) [0..<Suc (length width)] =
          map (specOffset width) [0..<Suc (length width)] \<and>
        (\<forall>i<length width.
           specOffset width i + 60 \<le> specOffset width (Suc i) \<and>
           specOffset width i < specOffset width (Suc i)))"
proof -
  from levelOffset64_run [of measureTextWidth filePaths] obtain w where
    b: "butlast (levelWidths64 measureTextWidth (assignSeq (buildMap filePaths))) = map Some w"
    and t: "levelOffset64 measureTextWidth filePaths = Inr (map (offset64 w) [0..<Suc (length w)])"
    by blast
  have "map (offset64 w) [0..<Suc (length w)] = map (specOffset w) [0..<Suc (length w)] \<and>
      (\<forall>i<length w. specOffset w i + 60 \<le> specOffset w (Suc i) \<and>
                     specOffset w i < specOffset w (Suc i))"
    if k: "k \<le> 1074" and g: "\<forall>v\<in>set w. onGrid k v"
      and s: "(sum_list w + 60 * real (length w)) * 2 ^ k \<le> 2 ^ 53" for k
  proof -
    from k have k': "k \<le> emin" by (simp add: emin_def)
    from g have nn: "\<forall>v\<in>set w. 0 \<le> v" by (auto dest: onGrid_nonneg)
    have "map (offset64 w) [0..<Suc (length w)] = map (specOffset w) [0..<Suc (length w)]"
      by (rule map_cong [OF refl]) (use offset64_exact [OF g k' s] in auto)
    moreover have "\<forall>i<length w. specOffset w i + 60 \<le> specOffset w (Suc i) \<and>
                     specOffset w i < specOffset w (Suc i)"
      using specOffset_step [OF nn] by blast
    ultimately show ?thesis by blast
  qed
  with b t show ?thesis by (intro exI [of _ w] conjI allI impI) blast+
qed

theorem C7_witness:
  "butlast (levelWidths64 charWidth (assignSeq (buildMap [''a/b/c'']))) = map Some [48, 48] \<and>
   (0::nat) \<le> 1074 \<and> onGrid 0 48 \<and>
   (sum_list [48, 48] + 60 * real (length [48 :: real, 48])) * 2 ^ 0 \<le> (2 ^ 53 :: real) \<and>
   levelOffset64 charWidth [''a/b/c''] = Inr (map (specOffset [48, 48]) [0, 1, 2]) \<and>
   map (specOffset [48, 48]) [0, 1, 2] = [0, 108, 216]"
proof -
  have w: "butlast (levelWidths64 charWidth (assignSeq (buildMap [''a/b/c'']))) = map Some [48, 48]"
    by code_simp
  have g: "onGrid 0 48" using onGrid_nat [of 0 48] by simp
  have s: "(sum_list [48, 48] + 60 * real (length [48 :: real, 48])) * 2 ^ 0 \<le> (2 ^ 53 :: real)"
    by simp
  have v: "map (specOffset [48, 48]) [0, 1, 2] = [0, 108, 216]" by (simp add: numeral_2_eq_2)
  from C7_offset_table_rounded [of charWidth "[''a/b/c'']"] obtain width where
    b: "butlast (levelWidths64 charWidth (assignSeq (buildMap [''a/b/c'']))) = map Some width"
    and t: "levelOffset64 charWidth [''a/b/c''] = Inr (map (offset64 width) [0..<Suc (length width)])"
    and e: "\<forall>k. k \<le> 1074 \<and> (\<forall>v\<in>set width. onGrid k v) \<and>
          (sum_list width + 60 * real (length width)) * 2 ^ k \<le> 2 ^ 53 \<longrightarrow>
        map (offset64 width) [0..<Suc (length width)] =
          map (specOffset width) [0..<Suc (length width)]"
    by blast
  from b w have "map Some width = map Some [48, 48]" by simp
  then have width: "width = [48, 48]" by (simp only: inj_map_eq_map [OF inj_Some])
  have u: "[0..<Suc (length [48 :: real, 48])] = [0, 1, 2]" by (simp add: upt_rec)
  from e [rule_format, of 0] g s
  have "map (offset64 width) [0..<Suc (length width)] = map (specOffset width) [0..<Suc (length width)]"
    unfolding width by simp
  with t have t': "levelOffset64 charWidth [''a/b/c''] = Inr (map (specOffset [48, 48]) [0, 1, 2])"
    unfolding width u by (simp only:)
  have z: "(0::nat) \<le> 1074" by simp
  from w z g s t' v show ?thesis by (intro conjI)
qed

text \<open>
  C8. For every list of input paths, also with duplicate or overlapping paths, the keys of the
  map that the builder produces are exactly the slash-joined prefixes of the input paths (a
  prefix of \<open>fp\<close> is \<open>fp\<close> itself or a \<open>p\<close> with \<open>fp = p/r\<close>), no key occurs twice, and the
  object stored under a key is the one whose \<open>path\<close> is that key. The object of a prefix is
  made once and then shared:
  \<^item> when the prefix is already a key, the builder's lookup hands out the stored object and
    leaves the whole store as it is;
  \<^item> whatever inputs follow, the object stays under its key with the kind, path, name and
    depth it was made with, and its list of children is only appended to;
  \<^item> every input that goes through a prefix finds its next segment among the children of
    that one object.
\<close>

theorem C8_keys_are_prefixes:
  "distinct (keys (buildMap filePaths)) \<and>
   set (keys (buildMap filePaths)) =
     {p. \<exists>fp\<in>set filePaths. p = fp \<or> (\<exists>r. fp = p @ CHR ''/'' # r)} \<and>
   (\<forall>k\<in>set (keys (buildMap filePaths)). path (heap (buildMap filePaths) k) = k) \<and>
   (\<forall>paths index.
      str_join CHR ''/'' (take (index + 1) paths) \<in> set (keys (buildMap filePaths)) \<longrightarrow>
      nodeFor paths index (buildMap filePaths) =
        (buildMap filePaths, str_join CHR ''/'' (take (index + 1) paths))) \<and>
   (\<forall>k\<in>set (keys (buildMap filePaths)). \<forall>later.
      k \<in> set (keys (buildMap (filePaths @ later))) \<and>
      ftype (heap (buildMap (filePaths @ later)) k) = ftype (heap (buildMap filePaths) k) \<and>
      path (heap (buildMap (filePaths @ later)) k) = path (heap (buildMap filePaths) k) \<and>
      base (heap (buildMap (filePaths @ later)) k) = base (heap (buildMap filePaths) k) \<and>
      level (heap (buildMap (filePaths @ later)) k) = level (heap (buildMap filePaths) k) \<and>
      (\<exists>added. children (heap (buildMap (filePaths @ later)) k) =
                 children (heap (buildMap filePaths) k) @ added)) \<and>
   (\<forall>fp\<in>set filePaths. \<forall>i. Suc i < length (str_split CHR ''/'' fp) \<longrightarrow>
      str_join CHR ''/'' (take (Suc i + 1) (str_split CHR ''/'' fp)) \<in>
        set (children (heap (buildMap filePaths)
               (str_join CHR ''/'' (take (i + 1) (str_split CHR ''/'' fp))))))"
proof -
  have "nodesOK (buildMap filePaths)"
    using wfMap_buildMap [of filePaths] by (simp add: wfMap_def)
  then have "distinct (keys (buildMap filePaths))"
    and "\<forall>k\<in>set (keys (buildMap filePaths)). path (heap (buildMap filePaths) k) = k"
    by (simp_all add: nodesOK_def nodeOK_def)
  moreover have "set (keys (buildMap filePaths)) =
      {p. \<exists>fp\<in>set filePaths. p = fp \<or> (\<exists>r. fp = p @ CHR ''/'' # r)}"
    unfolding set_keys_buildMap by (simp add: prefixes_iff set_eq_iff)
  moreover have "\<forall>paths index.
      str_join CHR ''/'' (take (index + 1) paths) \<in> set (keys (buildMap filePaths)) \<longrightarrow>
      nodeFor paths index (buildMap filePaths) =
        (buildMap filePaths, str_join CHR ''/'' (take (index + 1) paths))"
    using nodeFor_existing by blast
  moreover have "\<forall>k\<in>set (keys (buildMap filePaths)). \<forall>later.
      k \<in> set (keys (buildMap (filePaths @ later))) \<and>
      ftype (heap (buildMap (filePaths @ later)) k) = ftype (heap (buildMap filePaths) k) \<and>
      path (heap (buildMap (filePaths @ later)) k) = path (heap (buildMap filePaths) k) \<and>
      base (heap (buildMap (filePaths @ later)) k) = base (heap (buildMap filePaths) k) \<and>
      level (heap (buildMap (filePaths @ later)) k) = level (heap (buildMap filePaths) k) \<and>
      (\<exists>added. children (heap (buildMap (filePaths @ later)) k) =
                 children (heap (buildMap filePaths) k) @ added)"
    using buildMap_keeps by blast
  moreover have "\<forall>fp\<in>set filePaths. \<forall>i. Suc i < length (str_split CHR ''/'' fp) \<longrightarrow>
      str_join CHR ''/'' (take (Suc i + 1) (str_split CHR ''/'' fp)) \<in>
        set (children (heap (buildMap filePaths)
               (str_join CHR ''/'' (take (i + 1) (str_split CHR ''/'' fp)))))"
    using shared_prefix_children [of _ filePaths] by (simp add: segs_def prefixAt_def)
  ultimately show ?thesis by (intro conjI)
qed

theorem C8_witness:
  "''a'' \<in> set (keys (buildMap [''a/x'', ''a''])) \<and>
   path (heap (buildMap [''a/x'', ''a'']) ''a'') = ''a'' \<and>
   str_join CHR ''/'' (take (0 + 1) [''a'', ''y'']) \<in> set (keys (buildMap [''a/x'', ''a''])) \<and>
   nodeFor [''a'', ''y''] 0 (buildMap [''a/x'', ''a'']) = (buildMap [''a/x'', ''a''], ''a'') \<and>
   ftype (heap (buildMap ([''a/x'', ''a''] @ [''a/y''])) ''a'') = Dir \<and>
   children (heap (buildMap [''a/x'', ''a'']) ''a'') = [''a/x''] \<and>
   children (heap (buildMap ([''a/x'', ''a''] @ [''a/y''])) ''a'') = [''a/x''] @ [''a/y''] \<and>
   ''a/x'' \<in> set [''a/x'', ''a''] \<and> Suc 0 < length (str_split CHR ''/'' ''a/x'') \<and>
   ''a/x'' \<in> set (children (heap (buildMap [''a/x'', ''a'']) ''a''))"
proof -
  have k: "''a'' \<in> set (keys (buildMap [''a/x'', ''a'']))" by code_simp
  have j: "str_join CHR ''/'' (take (0 + 1) [''a'', ''y'']) = ''a''" by simp
  have t: "ftype (heap (buildMap [''a/x'', ''a'']) ''a'') = Dir" by code_simp
  have c: "children (heap (buildMap [''a/x'', ''a'']) ''a'') = [''a/x'']" by code_simp
  have c': "children (heap (buildMap ([''a/x'', ''a''] @ [''a/y''])) ''a'') = [''a/x''] @ [''a/y'']"
    by code_simp
  have m: "''a/x'' \<in> set [''a/x'', ''a'']" by simp
  have l: "Suc 0 < length (str_split CHR ''/'' ''a/x'')" by simp
  note T = C8_keys_are_prefixes [of "[''a/x'', ''a'']"]
  from T k have p: "path (heap (buildMap [''a/x'', ''a'']) ''a'') = ''a''" by blast
  from T k j have n: "nodeFor [''a'', ''y''] 0 (buildMap [''a/x'', ''a'']) =
      (buildMap [''a/x'', ''a''], ''a'')" by (metis (no_types, lifting))
  from T k have "ftype (heap (buildMap ([''a/x'', ''a''] @ [''a/y''])) ''a'') =
      ftype (heap (buildMap [''a/x'', ''a'']) ''a'')" by blast
  with t have t': "ftype (heap (buildMap ([''a/x'', ''a''] @ [''a/y''])) ''a'') = Dir" by simp
  have x: "''a/x'' \<in> set (children (heap (buildMap [''a/x'', ''a'']) ''a''))" by (simp add: c)
  have k': "str_join CHR ''/'' (take (0 + 1) [''a'', ''y'']) \<in> set (keys (buildMap [''a/x'', ''a'']))"
    using k by (simp only: j)
  from k p k' n t' c c' m l x show ?thesis by (intro conjI)
qed




end
